theory Spec2Isabelle
  imports
    Complex_Main
    "HOL-Library.Sublist"
    "HOL-Library.Multiset"
    "HOL-Library.AList"
    "HOL-Library.Dlist"
    "HOL-Library.Char_ord"
    "HOL-Library.List_Lexorder"
begin

section \<open>Data model of package farm\<close>

text \<open>
  The development embeds \<^verbatim>\<open>farm/farm.go\<close>. Scores are Go \<^verbatim>\<open>float64\<close> values; the data
  model restricts them to finite numbers, on which \<^verbatim>\<open>==\<close> and \<^verbatim>\<open>>\<close> are the
  comparisons of the reals, so a score is a \<^typ>\<open>real\<close> here (NaN and the infinities are
  outside the model). A Go \<^verbatim>\<open>error\<close> is \<^typ>\<open>string option\<close>: \<open>None\<close> is \<^verbatim>\<open>nil\<close> and
  \<open>Some msg\<close> is an error whose \<^verbatim>\<open>Error()\<close> text is \<open>msg\<close>.
\<close>

type_synonym error = "string option"

text \<open>
  \<^verbatim>\<open>common.KeyScoreMember\<close> is declared in package \<^verbatim>\<open>common\<close>, outside this file; its fields are
  the three that \<^verbatim>\<open>farm.go\<close> reads and writes.
\<close>

record KeyScoreMember =
  Key :: string
  Score :: real
  Member :: string

text \<open>
  \<^verbatim>\<open>keyMember{Key, Member}\<close>, declared in another file of the package; the two fields carry
  a prefix because a record field name is global and \<open>Key\<close>, \<open>Member\<close> belong to
  \<open>KeyScoreMember\<close>.
\<close>

record keyMember =
  kmKey :: string
  kmMember :: string

text \<open>\<^verbatim>\<open>type scoreResponseTuple struct\<close>; \<open>wasInserted = False\<close> says the keyMember was deleted.\<close>

record scoreResponseTuple =
  cluster :: nat
  score :: real
  wasInserted :: bool
  err :: error

text \<open>
  \<^verbatim>\<open>type tupleSet map[common.KeyScoreMember]struct{}\<close> and
  \<^verbatim>\<open>type keyMemberSet map[keyMember]struct{}\<close>. A Go map used as a set holds every key once
  and \<^verbatim>\<open>range\<close> visits the keys in an order the runtime chooses: the model is a
  duplicate-free list, whose order stands for the order of that visit.
\<close>

type_synonym tupleSet = "KeyScoreMember dlist"

type_synonym keyMemberSet = "keyMember dlist"

text \<open>
  Modelled from the spec: the interface \<^verbatim>\<open>cluster.Cluster\<close> (package \<^verbatim>\<open>cluster\<close> is outside
  this file), with the three methods that \<^verbatim>\<open>farm.go\<close> calls. A cluster is an opaque
  collaborator; within one farm operation it receives at most one call of each method, so
  it is represented by the reply it gives to that call.
\<close>

record Cluster =
  cluster_Insert :: "KeyScoreMember list \<Rightarrow> error"
  cluster_Delete :: "KeyScoreMember list \<Rightarrow> error"
  cluster_Score :: "string \<Rightarrow> string \<Rightarrow> real \<times> bool \<times> error"

text \<open>
  The instrumentation sink only receives calls; the model records them as a trace.
  Duration observers carry wall-clock values, which are not modelled: only the fact of the
  call is recorded.
\<close>

datatype instr_event =
    InsertCall | InsertRecordCount int | InsertCallDuration | InsertRecordDuration
  | InsertQuorumFailure
  | DeleteCall | DeleteRecordCount int | DeleteCallDuration | DeleteRecordDuration
  | DeleteQuorumFailure
  | RepairCall | RepairRequestCount int | RepairCheckPartialFailure
  | RepairCheckCompleteFailure | RepairCheckRedundant | RepairCheckDuration
  | RepairWriteCount | RepairWriteSuccess | RepairWriteFailure | RepairWriteDuration

text \<open>
  \<^verbatim>\<open>type Farm struct\<close>. The read strategy, the repair strategy and the instrumentation sink
  take no part in the functions embedded below and are left out of the record (the calls
  made on the sink are recorded in the results instead). \<^verbatim>\<open>New\<close> stores \<^verbatim>\<open>clusters\<close> and
  \<^verbatim>\<open>writeQuorum\<close> as they are passed; its only check replaces a \<^verbatim>\<open>nil\<close> sink by the no-op
  sink.
\<close>

record Farm =
  clusters :: "Cluster list"
  writeQuorum :: int

definition New :: "Cluster list \<Rightarrow> int \<Rightarrow> Farm" where
  "New cs wq = \<lparr>clusters = cs, writeQuorum = wq\<rparr>"

section \<open>Write coordinator\<close>

datatype writeInstrumentation = insertInstrumentation | deleteInstrumentation

fun call :: "writeInstrumentation \<Rightarrow> instr_event" where
  "call insertInstrumentation = InsertCall"
| "call deleteInstrumentation = DeleteCall"

fun recordCount :: "writeInstrumentation \<Rightarrow> int \<Rightarrow> instr_event" where
  "recordCount insertInstrumentation n = InsertRecordCount n"
| "recordCount deleteInstrumentation n = DeleteRecordCount n"

fun callDuration :: "writeInstrumentation \<Rightarrow> instr_event" where
  "callDuration insertInstrumentation = InsertCallDuration"
| "callDuration deleteInstrumentation = DeleteCallDuration"

fun recordDuration :: "writeInstrumentation \<Rightarrow> instr_event" where
  "recordDuration insertInstrumentation = InsertRecordDuration"
| "recordDuration deleteInstrumentation = DeleteRecordDuration"

fun quorumFailure :: "writeInstrumentation \<Rightarrow> instr_event" where
  "quorumFailure insertInstrumentation = InsertQuorumFailure"
| "quorumFailure deleteInstrumentation = DeleteQuorumFailure"

text \<open>\<^verbatim>\<open>strings.Join(elems, sep)\<close> of the Go standard library.\<close>

fun Join :: "string list \<Rightarrow> string \<Rightarrow> string" where
  "Join [] sep = []"
| "Join [x] sep = x"
| "Join (x # y # ys) sep = x @ sep @ Join (y # ys) sep"

text \<open>
  Scatter. Every cluster gets its own goroutine, which sends the result of its call (\<open>job\<close>,
  given the index of the cluster and the cluster) to the buffered channel. The order in
  which the results arrive is not determined by the program: it is the parameter \<open>sched\<close>,
  the list of cluster indices in arrival order. A cluster whose call never returns does not
  occur in \<open>sched\<close>.
\<close>

definition scatter :: "Farm \<Rightarrow> (nat \<Rightarrow> Cluster \<Rightarrow> 'r) \<Rightarrow> nat list \<Rightarrow> 'r list" where
  "scatter f job sched = map (\<lambda>i. job i (clusters f ! i)) sched"

text \<open>
  A schedule in which every cluster of the farm replies exactly once.
\<close>

definition all_reply :: "Farm \<Rightarrow> nat list \<Rightarrow> bool" where
  "all_reply f sched = (mset sched = mset [0..<length (clusters f)])"

text \<open>\<^verbatim>\<open>haveQuorum := func() bool { return got-len(errors) >= need }\<close>\<close>

definition haveQuorum :: "int \<Rightarrow> string list \<Rightarrow> int \<Rightarrow> bool" where
  "haveQuorum got errors need = (got - int (length errors) \<ge> need)"

text \<open>
  Gather. The first argument counts the iterations the loop \<^verbatim>\<open>for i := 0; i < cap(errChan); i++\<close>
  has left, the second is what the channel will still deliver. Receiving from a channel
  that delivers nothing more blocks for ever: the result is \<open>None\<close>. Otherwise the result is
  the pair \<open>(errors, got)\<close> with which the loop is left.
\<close>

fun gather :: "nat \<Rightarrow> error list \<Rightarrow> int \<Rightarrow> string list \<Rightarrow> int \<Rightarrow> (string list \<times> int) option" where
  "gather 0 chan need errors got = Some (errors, got)"
| "gather (Suc n) [] need errors got = None"
| "gather (Suc n) (r # chan) need errors got =
     (let errors' = (case r of None \<Rightarrow> errors | Some e \<Rightarrow> errors @ [e]);
          got' = got + 1
      in if haveQuorum got' errors' need then Some (errors', got')
         else gather n chan need errors' got')"

text \<open>The goroutine body \<^verbatim>\<open>errChan <- action(c, tuples)\<close>, for the cluster \<open>c\<close> with index \<open>i\<close>.\<close>

definition writeJob ::
  "(Cluster \<Rightarrow> KeyScoreMember list \<Rightarrow> error) \<Rightarrow> KeyScoreMember list \<Rightarrow> nat \<Rightarrow> Cluster \<Rightarrow>
   error" where
  "writeJob action tuples i c = action c tuples"

text \<open>
  \<^verbatim>\<open>func (f *Farm) write\<close>, named \<open>write_farm\<close> here (\<open>write\<close> is a reserved word of the
  theory language). What a call leaves behind: the error it returns, the number of replies it
  had received from the channel when it reported, and the instrumentation calls it made (the
  two duration observers run in the deferred function, after the report).
\<close>

record write_result =
  reply :: error
  collected :: int
  instr :: "instr_event list"

definition write_farm ::
  "Farm \<Rightarrow> KeyScoreMember list \<Rightarrow> (Cluster \<Rightarrow> KeyScoreMember list \<Rightarrow> error) \<Rightarrow>
   writeInstrumentation \<Rightarrow> nat list \<Rightarrow> write_result option" where
  "write_farm f tuples action ins sched =
     (if length tuples \<le> 0 then Some \<lparr>reply = None, collected = 0, instr = []\<rparr>
      else
        let errChan = scatter f (writeJob action tuples) sched;
            need = writeQuorum f
        in case gather (length (clusters f)) errChan need [] 0 of
             None \<Rightarrow> None
           | Some (errors, got) \<Rightarrow>
               if \<not> haveQuorum got errors need
               then Some \<lparr>reply = Some (''no quorum ('' @ Join errors ''; '' @ '')''),
                          collected = got,
                          instr = [call ins, recordCount ins (int (length tuples)),
                                   quorumFailure ins, callDuration ins, recordDuration ins]\<rparr>
               else Some \<lparr>reply = None,
                          collected = got,
                          instr = [call ins, recordCount ins (int (length tuples)),
                                   callDuration ins, recordDuration ins]\<rparr>)"

definition Insert :: "Farm \<Rightarrow> KeyScoreMember list \<Rightarrow> nat list \<Rightarrow> write_result option" where
  "Insert f tuples sched = write_farm f tuples (\<lambda>c a. cluster_Insert c a) insertInstrumentation sched"

definition Delete :: "Farm \<Rightarrow> KeyScoreMember list \<Rightarrow> nat list \<Rightarrow> write_result option" where
  "Delete f tuples sched = write_farm f tuples (\<lambda>c a. cluster_Delete c a) deleteInstrumentation sched"

section \<open>Repair coordinator\<close>

text \<open>
  The local variables of \<^verbatim>\<open>Repair\<close> that the gather loop updates. \<open>highestWasInserted\<close> is the
  local variable \<^verbatim>\<open>wasInserted\<close> (the field of \<open>scoreResponseTuple\<close> has that name already), and
  \<open>trace\<close> is the instrumentation called so far. \<^verbatim>\<open>clustersUpToDate\<close> is a
  \<^verbatim>\<open>map[int]bool\<close> in which only \<^verbatim>\<open>true\<close> is ever stored: it is the set of its keys,
  \<^verbatim>\<open>len\<close> is \<open>card\<close> and a lookup is membership.
\<close>

record repair_vars =
  clustersUpToDate :: "nat set"
  highestScore :: real
  highestWasInserted :: bool
  trace :: "instr_event list"

text \<open>The body of the gather loop of \<^verbatim>\<open>Repair\<close>, for one response taken from the channel.\<close>

definition gatherStep :: "scoreResponseTuple \<Rightarrow> repair_vars \<Rightarrow> repair_vars" where
  "gatherStep resp v =
     (if err resp \<noteq> None then v\<lparr>trace := trace v @ [RepairCheckPartialFailure]\<rparr>
      else if score resp = highestScore v \<and> wasInserted resp = highestWasInserted v
      then v\<lparr>clustersUpToDate := insert (cluster resp) (clustersUpToDate v)\<rparr>
      else if score resp > highestScore v
      then v\<lparr>highestScore := score resp,
             highestWasInserted := wasInserted resp,
             clustersUpToDate := {cluster resp}\<rparr>
      else v)"

text \<open>
  \<^verbatim>\<open>for i := 0; i < cap(responsesChan); i++ { resp := <-responsesChan; ... }\<close>: the first
  argument counts the iterations left; a receive on a channel that delivers nothing more
  blocks for ever (\<open>None\<close>).
\<close>

fun gatherScores :: "nat \<Rightarrow> scoreResponseTuple list \<Rightarrow> repair_vars \<Rightarrow> repair_vars option" where
  "gatherScores 0 chan v = Some v"
| "gatherScores (Suc n) [] v = None"
| "gatherScores (Suc n) (resp # chan) v = gatherScores n chan (gatherStep resp v)"

datatype push_action = PushInsert | PushDelete

text \<open>One call \<^verbatim>\<open>c.Insert([]common.KeyScoreMember{ksm})\<close> or \<^verbatim>\<open>c.Delete(...)\<close> made by \<^verbatim>\<open>Repair\<close>
  on the cluster with index \<open>target\<close>.\<close>

record push =
  target :: nat
  kind :: push_action
  payload :: "KeyScoreMember list"

text \<open>
  What a call of \<^verbatim>\<open>Repair\<close> does: the writes it pushes to clusters and the instrumentation
  it calls. The pushes run in goroutines of their own, one per lagging cluster; they are
  listed in the order in which the loop starts them.
\<close>

record repair_result =
  pushed :: "push list"
  events :: "instr_event list"

definition scoreJob :: "keyMember \<Rightarrow> nat \<Rightarrow> Cluster \<Rightarrow> scoreResponseTuple" where
  "scoreJob km i c =
     (case cluster_Score c (kmKey km) (kmMember km) of
        (s, w, e) \<Rightarrow> \<lparr>cluster = i, score = s, wasInserted = w, err = e\<rparr>)"

definition pushJob :: "bool \<Rightarrow> KeyScoreMember \<Rightarrow> Cluster \<Rightarrow> instr_event list" where
  "pushJob ins ksm c =
     (let e = (if ins then cluster_Insert c [ksm] else cluster_Delete c [ksm])
      in [if e = None then RepairWriteSuccess else RepairWriteFailure, RepairWriteDuration])"

text \<open>
  \<^verbatim>\<open>func (f *Farm) Repair(km keyMember)\<close>, in two parts. \<open>Repair_gather\<close> is the scatter of the
  score queries and the gather loop; it gives the local variables as the loop leaves them.
  \<open>Repair\<close> continues from there: the two early returns and the propagation. The two
  instrumentation calls at the start and \<^verbatim>\<open>RepairCheckDuration\<close> are made from goroutines of
  their own; the trace lists them where the program starts them.
\<close>

definition Repair_gather :: "Farm \<Rightarrow> keyMember \<Rightarrow> nat list \<Rightarrow> repair_vars option" where
  "Repair_gather f km sched =
     (let responsesChan = scatter f (scoreJob km) sched
      in gatherScores (length (clusters f)) responsesChan
           \<lparr>clustersUpToDate = {}, highestScore = 0, highestWasInserted = False,
            trace = [RepairCall, RepairRequestCount 1]\<rparr>)"

definition Repair :: "Farm \<Rightarrow> keyMember \<Rightarrow> nat list \<Rightarrow> repair_result option" where
  "Repair f km sched =
     (case Repair_gather f km sched of
        None \<Rightarrow> None
      | Some v \<Rightarrow>
          let checked = trace v @ [RepairCheckDuration] in
          if highestScore v = 0
          then Some \<lparr>pushed = [], events = checked @ [RepairCheckCompleteFailure]\<rparr>
          else if card (clustersUpToDate v) = length (clusters f)
          then Some \<lparr>pushed = [], events = checked @ [RepairCheckRedundant]\<rparr>
          else
            let ksm = \<lparr>Key = kmKey km, Score = highestScore v, Member = kmMember km\<rparr>;
                lagging = filter (\<lambda>i. i \<notin> clustersUpToDate v) [0..<length (clusters f)]
            in Some \<lparr>pushed = map (\<lambda>i. \<lparr>target = i,
                                       kind = (if highestWasInserted v then PushInsert
                                               else PushDelete),
                                       payload = [ksm]\<rparr>) lagging,
                     events = checked @ [RepairWriteCount] @
                       concat (map (\<lambda>i. pushJob (highestWasInserted v) ksm (clusters f ! i))
                                 lagging)\<rparr>)"

section \<open>Tuple sets, union and difference\<close>

text \<open>\<^verbatim>\<open>func (s tupleSet) add\<close> and \<^verbatim>\<open>func (s keyMemberSet) add\<close>: \<^verbatim>\<open>s[x] = struct{}{}\<close>.\<close>

definition add :: "'a \<Rightarrow> 'a dlist \<Rightarrow> 'a dlist" where
  "add x s = Dlist.insert x s"

definition has :: "'a dlist \<Rightarrow> 'a \<Rightarrow> bool" where
  "has s x = Dlist.member s x"

definition makeSet :: "KeyScoreMember list \<Rightarrow> tupleSet" where
  "makeSet a = fold add a Dlist.empty"

definition addMany :: "'a dlist \<Rightarrow> 'a dlist \<Rightarrow> 'a dlist" where
  "addMany s other = fold add (list_of_dlist other) s"

definition slice :: "'a dlist \<Rightarrow> 'a list" where
  "slice s = list_of_dlist s"

text \<open>
  The body of the inner loop of \<^verbatim>\<open>unionDifference\<close>. The maps \<^verbatim>\<open>scores\<close> and \<^verbatim>\<open>counts\<close> are
  association lists with one entry for a key; reading a key that \<^verbatim>\<open>counts\<close> does not hold
  gives 0, as in Go.
\<close>

definition tallyTuple ::
  "KeyScoreMember \<Rightarrow> (keyMember \<times> real) list \<times> (KeyScoreMember \<times> int) list \<Rightarrow>
   (keyMember \<times> real) list \<times> (KeyScoreMember \<times> int) list" where
  "tallyTuple tuple acc =
     (case acc of (scores, counts) \<Rightarrow>
        let km = \<lparr>kmKey = Key tuple, kmMember = Member tuple\<rparr>;
            scores' = (case map_of scores km of
                         None \<Rightarrow> AList.update km (Score tuple) scores
                       | Some s \<Rightarrow> if Score tuple > s
                                  then AList.update km (Score tuple) scores else scores);
            counts' = AList.update tuple
                        ((case map_of counts tuple of None \<Rightarrow> 0 | Some n \<Rightarrow> n) + 1) counts
        in (scores', counts'))"

definition unionDifference :: "tupleSet list \<Rightarrow> tupleSet \<times> keyMemberSet" where
  "unionDifference tupleSets =
     (let expectedCount = int (length tupleSets);
          tallied = fold (\<lambda>tupleSet acc. fold tallyTuple (slice tupleSet) acc) tupleSets ([], [])
      in case tallied of (scores, counts) \<Rightarrow>
           (fold (\<lambda>(km, bestScore) un.
                    add \<lparr>Key = kmKey km, Score = bestScore, Member = kmMember km\<rparr> un)
                 scores Dlist.empty,
            fold (\<lambda>(ksm, n) di.
                    if n < expectedCount
                    then add \<lparr>kmKey = Key ksm, kmMember = Member ksm\<rparr> di else di)
                 counts Dlist.empty))"

section \<open>Ordered, limited slices\<close>

text \<open>
  Modelled from the spec: the method \<^verbatim>\<open>Less\<close> of \<^verbatim>\<open>common.KeyScoreMembers\<close> (package
  \<^verbatim>\<open>common\<close> is outside this file), as the canonical order of the data model: key ascending,
  then score descending, then member ascending. Go compares strings byte by byte, which is
  the lexicographic order on \<^typ>\<open>string\<close>.
\<close>

definition Less :: "KeyScoreMember \<Rightarrow> KeyScoreMember \<Rightarrow> bool" where
  "Less a b =
     (if Key a \<noteq> Key b then Key a < Key b
      else if Score a \<noteq> Score b then Score a > Score b
      else Member a < Member b)"

text \<open>
  \<^verbatim>\<open>sort.Sort\<close> of the Go standard library puts the slice into an order in which no element
  is \<^verbatim>\<open>Less\<close> than an earlier one; it is modelled by insertion sort.
\<close>

fun insertLess :: "KeyScoreMember \<Rightarrow> KeyScoreMember list \<Rightarrow> KeyScoreMember list" where
  "insertLess x [] = [x]"
| "insertLess x (y # ys) = (if Less y x then y # insertLess x ys else x # y # ys)"

definition sort_Sort :: "KeyScoreMember list \<Rightarrow> KeyScoreMember list" where
  "sort_Sort a = foldr insertLess a []"

datatype panic = SliceBoundsOutOfRange

text \<open>
  \<^verbatim>\<open>func (s tupleSet) orderedLimitedSlice(limit int)\<close>. The slice expression \<^verbatim>\<open>a[:limit]\<close> is
  evaluated only when \<^verbatim>\<open>len(a) > limit\<close>; it panics when \<^verbatim>\<open>limit\<close> is negative.
\<close>

definition orderedLimitedSlice :: "tupleSet \<Rightarrow> int \<Rightarrow> panic + KeyScoreMember list" where
  "orderedLimitedSlice s limit =
     (let a = sort_Sort (slice s)
      in if int (length a) > limit
         then (if limit < 0 then Inl SliceBoundsOutOfRange else Inr (take (nat limit) a))
         else Inr a)"

section \<open>Vocabulary of the properties\<close>

text \<open>The error texts among the replies taken from a channel, in the order of arrival.\<close>

definition error_texts :: "error list \<Rightarrow> string list" where
  "error_texts chan = List.map_filter (\<lambda>e. e) chan"

text \<open>The number of \<^verbatim>\<open>nil\<close> replies among the replies taken from a channel.\<close>

definition successes :: "error list \<Rightarrow> nat" where
  "successes chan = length (filter (\<lambda>e. e = None) chan)"

text \<open>The number of clusters of the farm that acknowledge a call, that is, answer \<^verbatim>\<open>nil\<close>.\<close>

definition acknowledged :: "Farm \<Rightarrow> (Cluster \<Rightarrow> error) \<Rightarrow> nat" where
  "acknowledged f act = length (filter (\<lambda>c. act c = None) (clusters f))"

text \<open>
  Quorum is out of reach after \<open>k\<close> of \<open>n\<close> replies when the successes among them and the
  \<open>n - k\<close> replies still pending together stay below \<open>need\<close>. \<open>first_unreachable\<close> is the first
  such point of a reply sequence, if there is one.
\<close>

definition unreachable_after :: "int \<Rightarrow> nat \<Rightarrow> error list \<Rightarrow> nat \<Rightarrow> bool" where
  "unreachable_after need n chan k \<longleftrightarrow> int (successes (take k chan)) + int (n - k) < need"

definition first_unreachable :: "Farm \<Rightarrow> error list \<Rightarrow> nat option" where
  "first_unreachable f chan =
     find (unreachable_after (writeQuorum f) (length (clusters f)) chan)
       [0..<Suc (length (clusters f))]"

text \<open>The reply of the cluster with index \<open>i\<close> to the score query for \<open>km\<close>.\<close>

definition score_reply :: "Farm \<Rightarrow> keyMember \<Rightarrow> nat \<Rightarrow> real \<times> bool \<times> error" where
  "score_reply f km i = cluster_Score (clusters f ! i) (kmKey km) (kmMember km)"

text \<open>
  A response that was delivered without error and carries the score \<open>hs\<close> on the side
  \<open>side\<close>.
\<close>

definition matches :: "real \<Rightarrow> bool \<Rightarrow> scoreResponseTuple \<Rightarrow> bool" where
  "matches hs side r \<longleftrightarrow> err r = None \<and> score r = hs \<and> wasInserted r = side"

text \<open>
  The invariant of the gather loop of \<^verbatim>\<open>Repair\<close>, relating the local variables \<open>v\<close> to the
  responses \<open>chan\<close> taken from the channel so far: \<open>highestScore\<close> bounds every score
  delivered without error; unless it is still 0, it is the score of a response delivered
  without error, and \<open>highestWasInserted\<close> is the side of the first such response;
  \<open>clustersUpToDate\<close> holds the clusters whose response matches the two; and the trace has one
  \<^verbatim>\<open>RepairCheckPartialFailure\<close> for each failed query.
\<close>

definition gather_inv :: "scoreResponseTuple list \<Rightarrow> repair_vars \<Rightarrow> bool" where
  "gather_inv chan v \<longleftrightarrow>
     0 \<le> highestScore v \<and>
     (\<forall>r \<in> set chan. err r = None \<longrightarrow> score r \<le> highestScore v) \<and>
     (if highestScore v = 0 then \<not> highestWasInserted v
      else \<exists>r. find (\<lambda>r. err r = None \<and> score r = highestScore v) chan = Some r \<and>
               wasInserted r = highestWasInserted v) \<and>
     clustersUpToDate v =
       cluster ` {r \<in> set chan. matches (highestScore v) (highestWasInserted v) r} \<and>
     trace v = [RepairCall, RepairRequestCount 1] @
       replicate (length (filter (\<lambda>r. err r \<noteq> None) chan)) RepairCheckPartialFailure"

text \<open>The tuples a tuple set holds, and the tuples held by some input of a list of inputs.\<close>

definition elems :: "'a dlist \<Rightarrow> 'a set" where
  "elems s = set (list_of_dlist s)"

definition all_inputs :: "tupleSet list \<Rightarrow> KeyScoreMember set" where
  "all_inputs tss = \<Union> (elems ` set tss)"

text \<open>\<^verbatim>\<open>keyMember{Key: tuple.Key, Member: tuple.Member}\<close>, the pair a tuple is about.\<close>

definition kmOf :: "KeyScoreMember \<Rightarrow> keyMember" where
  "kmOf t = \<lparr>kmKey = Key t, kmMember = Member t\<rparr>"

text \<open>
  \<open>s\<close> is the best score of the pair \<open>km\<close> among the tuples \<open>xs\<close>: a tuple of the pair carries
  it, and no tuple of the pair carries a higher one.
\<close>

definition best :: "KeyScoreMember list \<Rightarrow> keyMember \<Rightarrow> real \<Rightarrow> bool" where
  "best xs km s \<longleftrightarrow>
     (\<exists>t \<in> set xs. kmOf t = km \<and> Score t = s) \<and> (\<forall>t \<in> set xs. kmOf t = km \<longrightarrow> Score t \<le> s)"

text \<open>The scores under which the tuple set \<open>ts\<close> holds the pair \<open>(k, m)\<close>.\<close>

definition scores_in :: "tupleSet \<Rightarrow> string \<Rightarrow> string \<Rightarrow> real set" where
  "scores_in ts k m = Score ` {t \<in> elems ts. Key t = k \<and> Member t = m}"

text \<open>A tuple set that holds every pair under at most one score.\<close>

definition single_scored :: "tupleSet \<Rightarrow> bool" where
  "single_scored ts \<longleftrightarrow>
     (\<forall>t \<in> elems ts. \<forall>t' \<in> elems ts. Key t = Key t' \<and> Member t = Member t' \<longrightarrow> t = t')"

section \<open>Example farms\<close>

definition exampleTuple :: KeyScoreMember where
  "exampleTuple = \<lparr>Key = ''k'', Score = 1, Member = ''m''\<rparr>"

text \<open>A cluster that answers every write with \<open>w\<close> and every score query with \<open>sc\<close>.\<close>

definition replying :: "error \<Rightarrow> real \<times> bool \<times> error \<Rightarrow> Cluster" where
  "replying w sc =
     \<lparr>cluster_Insert = (\<lambda>a. w), cluster_Delete = (\<lambda>a. w), cluster_Score = (\<lambda>k m. sc)\<rparr>"

definition farm_two_down :: Farm where
  "farm_two_down =
     New [replying (Some ''down'') (0, False, None),
          replying (Some ''timeout'') (0, False, None),
          replying None (0, False, None)] 2"

definition farm_over_quorum :: Farm where
  "farm_over_quorum = New [replying None (0, False, None), replying None (0, False, None)] 3"

definition farm_zero_quorum :: Farm where
  "farm_zero_quorum =
     New [replying (Some ''down'') (0, False, None), replying (Some ''timeout'') (0, False, None)] 0"

definition exampleKM :: keyMember where
  "exampleKM = \<lparr>kmKey = ''k'', kmMember = ''m''\<rparr>"

definition farm_lagging :: Farm where
  "farm_lagging =
     New [replying None (3, True, None), replying None (3, True, None),
          replying None (1, True, None)] 2"

definition farm_unknown :: Farm where
  "farm_unknown =
     New [replying None (0, False, None), replying None (0, False, None),
          replying None (0, False, None)] 2"

definition farm_agreeing :: Farm where
  "farm_agreeing =
     New [replying None (3, True, None), replying None (3, True, None),
          replying None (3, True, None)] 2"

definition farm_unreachable :: Farm where
  "farm_unreachable =
     New [replying None (0, False, Some ''down''), replying None (0, False, None),
          replying None (0, False, Some ''timeout'')] 2"

section \<open>Example replicas\<close>

definition tuple :: "string \<Rightarrow> real \<Rightarrow> string \<Rightarrow> KeyScoreMember" where
  "tuple k s m = \<lparr>Key = k, Score = s, Member = m\<rparr>"

definition replica0 :: tupleSet where
  "replica0 = makeSet [tuple ''k'' 1 ''m1'']"

definition replica1 :: tupleSet where
  "replica1 = makeSet [tuple ''k'' 2 ''m1'', tuple ''k'' 1 ''m2'']"

definition replica2 :: tupleSet where
  "replica2 = makeSet [tuple ''k'' 1 ''m2'']"

definition twice_scored :: tupleSet where
  "twice_scored = makeSet [tuple ''k'' 1 ''m'', tuple ''k'' 2 ''m'']"

definition unordered :: tupleSet where
  "unordered = makeSet [tuple ''k'' 1 ''m1'', tuple ''k'' 2 ''m1'', tuple ''a'' 1 ''m2'',
                        tuple ''k'' 1 ''m0'']"

section \<open>Properties of the write coordinator\<close>

lemma writeJob_lambda: "writeJob action tuples = (\<lambda>i c. action c tuples)"
  by (rule ext, rule ext) (simp add: writeJob_def)

lemma error_texts_simps [simp]:
  "error_texts [] = []"
  "error_texts (None # chan) = error_texts chan"
  "error_texts (Some e # chan) = e # error_texts chan"
  by (simp_all add: error_texts_def List.map_filter_simps)

lemma successes_simps [simp]:
  "successes [] = 0"
  "successes (None # chan) = Suc (successes chan)"
  "successes (Some e # chan) = successes chan"
  by (simp_all add: successes_def)

lemma gather_returns:
  "n \<le> length chan \<Longrightarrow> \<exists>e g. gather n chan need errors got = Some (e, g)"
proof (induction n arbitrary: chan errors got)
  case 0
  then show ?case by simp
next
  case (Suc n)
  then obtain x rest where "chan = x # rest" by (cases chan) auto
  with Suc show ?case by (simp add: Let_def)
qed

lemma gather_quorum:
  "length chan = n \<Longrightarrow> gather n chan need errors got = Some (e, g) \<Longrightarrow>
   haveQuorum g e need \<longleftrightarrow> need \<le> got - int (length errors) + int (successes chan)"
proof (induction n arbitrary: chan errors got)
  case 0
  then show ?case by (simp add: haveQuorum_def)
next
  case (Suc n)
  then obtain x rest where c: "chan = x # rest" by (cases chan) auto
  show ?case
  proof (cases x)
    case None
    with Suc c show ?thesis
      by (auto simp: Let_def haveQuorum_def split: if_splits)
  next
    case (Some a)
    with Suc c show ?thesis
      by (auto simp: Let_def haveQuorum_def split: if_splits)
  qed
qed

lemma gather_failure:
  "length chan = n \<Longrightarrow> gather n chan need errors got = Some (e, g) \<Longrightarrow>
   \<not> haveQuorum g e need \<Longrightarrow> g = got + int n \<and> e = errors @ error_texts chan"
proof (induction n arbitrary: chan errors got)
  case 0
  then show ?case by simp
next
  case (Suc n)
  then obtain x rest where c: "chan = x # rest" by (cases chan) auto
  define errors' where "errors' = (case x of None \<Rightarrow> errors | Some x \<Rightarrow> errors @ [x])"
  from Suc.prems c have len: "length rest = n" by simp
  from Suc.prems(2,3) c have rec: "gather n rest need errors' (got + 1) = Some (e, g)"
    by (auto simp: Let_def errors'_def split: if_splits)
  from Suc.IH[OF len rec Suc.prems(3)]
  have "g = got + 1 + int n" and "e = errors' @ error_texts rest" by simp_all
  then show ?case using c by (cases x) (simp_all add: errors'_def)
qed

lemma Join_sublist: "e \<in> set es \<Longrightarrow> sublist e (Join es sep)"
proof (induction es sep rule: Join.induct)
  case (1 sep)
  then show ?case by simp
next
  case (2 x sep)
  then show ?case by simp
next
  case (3 x y ys sep)
  show ?case
  proof (cases "e = x")
    case True
    then show ?thesis by simp
  next
    case False
    with 3 have "sublist e (Join (y # ys) sep)" by simp
    then obtain ps ss where "Join (y # ys) sep = ps @ e @ ss" by (auto simp: sublist_def)
    then have "Join (x # y # ys) sep = (x @ sep @ ps) @ e @ ss" by simp
    then show ?thesis unfolding sublist_def by blast
  qed
qed

lemma map_nth_job:
  "map (\<lambda>i. job i (xs ! i)) [0..<length xs] = map (\<lambda>(i, c). job i c) (enumerate 0 xs)"
  by (rule nth_equalityI) (simp_all add: nth_enumerate_eq del: upt_Suc)

lemma scatter_mset:
  assumes "all_reply f sched"
  shows "mset (scatter f job sched) = mset (map (\<lambda>(i, c). job i c) (enumerate 0 (clusters f)))"
proof -
  have "mset (scatter f job sched) = image_mset (\<lambda>i. job i (clusters f ! i)) (mset sched)"
    by (simp add: scatter_def)
  also have "\<dots> = mset (map (\<lambda>i. job i (clusters f ! i)) [0..<length (clusters f)])"
    using assms by (simp only: all_reply_def mset_map)
  finally show ?thesis by (simp only: map_nth_job)
qed

lemma scatter_length: "all_reply f sched \<Longrightarrow> length (scatter f job sched) = length (clusters f)"
  unfolding scatter_def all_reply_def by (metis length_map size_mset length_upt diff_zero)

lemma scatter_const_mset:
  assumes "all_reply f sched"
  shows "mset (scatter f (\<lambda>i. act) sched) = mset (map act (clusters f))"
proof -
  have "map (\<lambda>(i, c). act c) (enumerate 0 (clusters f)) = map (act \<circ> snd) (enumerate 0 (clusters f))"
    by (rule map_cong) auto
  also have "\<dots> = map act (map snd (enumerate 0 (clusters f)))"
    by (simp only: map_map)
  also have "\<dots> = map act (clusters f)"
    by (simp only: map_snd_enumerate)
  finally show ?thesis using scatter_mset[OF assms, of "\<lambda>i. act"] by simp
qed

lemma successes_mset: "mset xs = mset ys \<Longrightarrow> successes xs = successes ys"
  unfolding successes_def by (metis mset_filter size_mset)

lemma successes_scatter:
  "all_reply f sched \<Longrightarrow> successes (scatter f (\<lambda>i. act) sched) = acknowledged f act"
proof -
  assume a: "all_reply f sched"
  have "successes (scatter f (\<lambda>i. act) sched) = successes (map act (clusters f))"
    by (rule successes_mset) (rule scatter_const_mset[OF a])
  also have "\<dots> = acknowledged f act"
    by (simp add: successes_def acknowledged_def length_filter_map comp_def)
  finally show ?thesis .
qed

lemma error_texts_set: "e \<in> set (error_texts chan) \<longleftrightarrow> Some e \<in> set chan"
  by (induction chan) (auto simp: error_texts_def List.map_filter_simps split: option.splits)

lemma write_farm_success:
  assumes "tuples \<noteq> []" and "all_reply f sched"
    and "writeQuorum f \<le> int (acknowledged f (\<lambda>c. action c tuples))"
  shows "\<exists>g. write_farm f tuples action ins sched =
           Some \<lparr>reply = None, collected = g,
                 instr = [call ins, recordCount ins (int (length tuples)),
                          callDuration ins, recordDuration ins]\<rparr>"
proof -
  let ?chan = "scatter f (\<lambda>i c. action c tuples) sched"
  have len: "length ?chan = length (clusters f)" by (rule scatter_length[OF assms(2)])
  then obtain e g where eg: "gather (length (clusters f)) ?chan (writeQuorum f) [] 0 = Some (e, g)"
    using gather_returns[of "length (clusters f)" ?chan] by (metis order_refl)
  have "haveQuorum g e (writeQuorum f)"
    using gather_quorum[OF len eg] assms(3) successes_scatter[OF assms(2)] by simp
  then show ?thesis using assms(1) eg by (simp add: write_farm_def Let_def writeJob_lambda)
qed

lemma write_farm_failure:
  assumes "tuples \<noteq> []" and "all_reply f sched"
    and "\<not> writeQuorum f \<le> int (acknowledged f (\<lambda>c. action c tuples))"
  shows "write_farm f tuples action ins sched =
           Some \<lparr>reply = Some (''no quorum ('' @
                    Join (error_texts (scatter f (\<lambda>i c. action c tuples) sched)) ''; '' @ '')''),
                 collected = int (length (clusters f)),
                 instr = [call ins, recordCount ins (int (length tuples)), quorumFailure ins,
                          callDuration ins, recordDuration ins]\<rparr>"
proof -
  let ?chan = "scatter f (\<lambda>i c. action c tuples) sched"
  have len: "length ?chan = length (clusters f)" by (rule scatter_length[OF assms(2)])
  then obtain e g where eg: "gather (length (clusters f)) ?chan (writeQuorum f) [] 0 = Some (e, g)"
    using gather_returns[of "length (clusters f)" ?chan] by (metis order_refl)
  have nq: "\<not> haveQuorum g e (writeQuorum f)"
    using gather_quorum[OF len eg] assms(3) successes_scatter[OF assms(2)] by simp
  from gather_failure[OF len eg nq] have "g = int (length (clusters f))" "e = error_texts ?chan"
    by simp_all
  then show ?thesis using assms(1) eg nq by (simp add: write_farm_def Let_def writeJob_lambda)
qed

lemma error_in_message:
  assumes "all_reply f sched" and "c \<in> set (clusters f)" and "act c = Some e"
  shows "sublist e (''no quorum ('' @ Join (error_texts (scatter f (\<lambda>i. act) sched)) ''; '' @ '')'')"
proof -
  have "Some e \<in> set (map act (clusters f))" using assms(2,3) by force
  then have "Some e \<in> set (scatter f (\<lambda>i. act) sched)"
    using scatter_const_mset[OF assms(1), of act] by (metis set_mset_mset)
  then have "sublist e (Join (error_texts (scatter f (\<lambda>i. act) sched)) ''; '')"
    by (simp add: Join_sublist error_texts_set)
  then show ?thesis
    by (meson sublist_appendI sublist_order.order_trans)
qed

text \<open>
  Claim C1. For a non-empty batch and a schedule in which every cluster replies, \<^verbatim>\<open>Insert\<close>
  and \<^verbatim>\<open>Delete\<close> return; they return \<^verbatim>\<open>nil\<close> if and only if at least \<open>writeQuorum\<close> clusters
  acknowledged the write; and when they return an error, it is the one message
  \<open>no quorum (...)\<close> that joins the error texts received, in the order of arrival, and every
  error text a cluster gave occurs in it.
\<close>

theorem write_quorum_iff:
  assumes "tuples \<noteq> []" and "all_reply f sched"
    and "(wr, act) \<in> {(Insert, cluster_Insert), (Delete, cluster_Delete)}"
  shows "\<exists>r. wr f tuples sched = Some r \<and>
           (reply r = None \<longleftrightarrow> writeQuorum f \<le> int (acknowledged f (\<lambda>c. act c tuples))) \<and>
           (\<forall>msg. reply r = Some msg \<longrightarrow>
              msg = ''no quorum ('' @
                      Join (error_texts (scatter f (writeJob act tuples) sched)) ''; '' @ '')'' \<and>
              (\<forall>c \<in> set (clusters f). \<forall>e. act c tuples = Some e \<longrightarrow> sublist e msg))"
proof -
  obtain ins where wr: "wr f tuples sched = write_farm f tuples act ins sched"
    using assms(3) by (auto simp: Insert_def Delete_def)
  show ?thesis
  proof (cases "writeQuorum f \<le> int (acknowledged f (\<lambda>c. act c tuples))")
    case True
    from write_farm_success[of tuples f sched act ins, OF assms(1,2) True] wr True
    show ?thesis by (auto simp: writeJob_lambda)
  next
    case False
    have "\<forall>c \<in> set (clusters f). \<forall>e. act c tuples = Some e \<longrightarrow>
            sublist e (''no quorum ('' @
              Join (error_texts (scatter f (\<lambda>i c. act c tuples) sched)) ''; '' @ '')'')"
      using error_in_message[OF assms(2), of _ "\<lambda>c. act c tuples"] by blast
    with write_farm_failure[of tuples f sched act ins, OF assms(1,2) False] wr False
    show ?thesis by (simp add: writeJob_lambda)
  qed
qed

lemma all_reply_3: "all_reply farm_two_down [2, 0, 1]"
  by (simp add: all_reply_def farm_two_down_def New_def upt_rec)

lemma gather_nonpositive:
  assumes "need \<le> 0"
  shows "gather (Suc n) (r # chan) need [] 0 = Some (case r of None \<Rightarrow> [] | Some e \<Rightarrow> [e], 1)"
  using assms by (cases r) (simp_all add: haveQuorum_def)

lemma acknowledged_le: "acknowledged f act \<le> length (clusters f)"
  by (simp add: acknowledged_def)

lemma error_texts_all_None: "(\<forall>x \<in> set chan. x = None) \<Longrightarrow> error_texts chan = []"
  by (induction chan) simp_all

lemma first_unreachable_at_end:
  assumes "length chan = length (clusters f)" and "int (successes chan) < writeQuorum f"
  shows "\<exists>k \<le> length (clusters f). first_unreachable f chan = Some k"
proof -
  let ?P = "unreachable_after (writeQuorum f) (length (clusters f)) chan"
  let ?n = "length (clusters f)"
  have "?P ?n" using assms by (simp add: unreachable_after_def)
  moreover have "?n \<in> set [0..<Suc ?n]" by simp
  ultimately obtain k where k: "find ?P [0..<Suc ?n] = Some k"
    by (metis find_None_iff not_Some_eq)
  then have "k \<in> set [0..<Suc ?n]" by (metis find_Some_iff nth_mem)
  then have "k \<le> ?n" by auto
  with k show ?thesis by (simp add: first_unreachable_def)
qed

text \<open>
  Against claim C5 as stated. Three clusters, \<open>writeQuorum = 2\<close>, and the two errors arrive
  first: after two replies no success and one pending reply are left, so quorum is out of
  reach (\<open>first_unreachable\<close> is 2), yet \<^verbatim>\<open>Insert\<close> reports only after it has taken the third
  reply from the channel (\<open>collected\<close> is 3).
\<close>

theorem write_failure_stops_early_counterexample:
  "first_unreachable farm_two_down
     (scatter farm_two_down (writeJob cluster_Insert [exampleTuple]) [0, 1, 2]) = Some 2 \<and>
   Insert farm_two_down [exampleTuple] [0, 1, 2] =
     Some \<lparr>reply = Some ''no quorum (down; timeout)'', collected = 3,
           instr = [InsertCall, InsertRecordCount 1, InsertQuorumFailure,
                    InsertCallDuration, InsertRecordDuration]\<rparr>"
  by (simp add: first_unreachable_def unreachable_after_def farm_two_down_def New_def
      scatter_def replying_def upt_rec successes_def Insert_def write_farm_def writeJob_lambda
      haveQuorum_def)

text \<open>
  Claim C5, amended. For a non-empty batch, a write that returns failure has collected the
  reply of every cluster: the gather loop is left early only on quorum, so failure is
  reported after \<^verbatim>\<open>len(f.clusters)\<close> replies, which is at or after the first point at which
  quorum was out of reach.
\<close>

theorem write_failure_after_all_replies:
  assumes "tuples \<noteq> []" and "all_reply f sched"
    and "(wr, act) \<in> {(Insert, cluster_Insert), (Delete, cluster_Delete)}"
    and "wr f tuples sched = Some r" and "reply r \<noteq> None"
  shows "collected r = int (length (clusters f)) \<and>
         (\<exists>k \<le> length (clusters f).
            first_unreachable f (scatter f (writeJob act tuples) sched) = Some k)"
proof -
  obtain ins where wr: "wr f tuples sched = write_farm f tuples act ins sched"
    using assms(3) by (auto simp: Insert_def Delete_def)
  have nq: "\<not> writeQuorum f \<le> int (acknowledged f (\<lambda>c. act c tuples))"
  proof
    assume "writeQuorum f \<le> int (acknowledged f (\<lambda>c. act c tuples))"
    from write_farm_success[of tuples f sched act ins, OF assms(1,2) this] wr assms(4,5)
    show False by auto
  qed
  from write_farm_failure[of tuples f sched act ins, OF assms(1,2) nq] wr assms(4)
  have c: "collected r = int (length (clusters f))" by auto
  have "int (successes (scatter f (\<lambda>i c. act c tuples) sched)) < writeQuorum f"
    using nq successes_scatter[OF assms(2), of "\<lambda>c. act c tuples"] by simp
  from first_unreachable_at_end[OF scatter_length[OF assms(2)] this] c
  show ?thesis by (simp add: writeJob_lambda)
qed

theorem write_failure_after_all_replies_witness:
  "[exampleTuple] \<noteq> [] \<and> all_reply farm_two_down [2, 0, 1] \<and>
   (Insert, cluster_Insert) \<in> {(Insert, cluster_Insert), (Delete, cluster_Delete)} \<and>
   Insert farm_two_down [exampleTuple] [2, 0, 1] =
     Some \<lparr>reply = Some ''no quorum (down; timeout)'', collected = 3,
           instr = [InsertCall, InsertRecordCount 1, InsertQuorumFailure,
                    InsertCallDuration, InsertRecordDuration]\<rparr> \<and>
   (\<exists>k \<le> length (clusters farm_two_down).
      first_unreachable farm_two_down
        (scatter farm_two_down (writeJob cluster_Insert [exampleTuple]) [2, 0, 1]) = Some k)"
proof -
  have a: "[exampleTuple] \<noteq> []" by simp
  have b: "(Insert, cluster_Insert) \<in> {(Insert, cluster_Insert), (Delete, cluster_Delete)}"
    by simp
  have c: "Insert farm_two_down [exampleTuple] [2, 0, 1] =
     Some \<lparr>reply = Some ''no quorum (down; timeout)'', collected = 3,
           instr = [InsertCall, InsertRecordCount 1, InsertQuorumFailure,
                    InsertCallDuration, InsertRecordDuration]\<rparr>"
    by (simp add: farm_two_down_def New_def scatter_def replying_def Insert_def write_farm_def
        writeJob_lambda haveQuorum_def)
  have d: "\<exists>k \<le> length (clusters farm_two_down).
      first_unreachable farm_two_down
        (scatter farm_two_down (writeJob cluster_Insert [exampleTuple]) [2, 0, 1]) = Some k"
    using write_failure_after_all_replies[OF a all_reply_3 b c] by auto
  show ?thesis by (intro conjI a all_reply_3 b c d)
qed

theorem write_quorum_iff_witness:
  "[exampleTuple] \<noteq> [] \<and> all_reply farm_two_down [2, 0, 1] \<and>
   (Delete, cluster_Delete) \<in> {(Insert, cluster_Insert), (Delete, cluster_Delete)} \<and>
   (\<exists>r. Delete farm_two_down [exampleTuple] [2, 0, 1] = Some r \<and>
      (reply r = None \<longleftrightarrow>
         writeQuorum farm_two_down \<le>
           int (acknowledged farm_two_down (\<lambda>c. cluster_Delete c [exampleTuple]))) \<and>
      (\<forall>msg. reply r = Some msg \<longrightarrow>
         msg = ''no quorum ('' @
           Join (error_texts (scatter farm_two_down
                  (writeJob cluster_Delete [exampleTuple]) [2, 0, 1])) ''; '' @ '')'' \<and>
         (\<forall>c \<in> set (clusters farm_two_down). \<forall>e.
            cluster_Delete c [exampleTuple] = Some e \<longrightarrow> sublist e msg))) \<and>
   acknowledged farm_two_down (\<lambda>c. cluster_Delete c [exampleTuple]) = 1 \<and>
   reply (the (Delete farm_two_down [exampleTuple] [2, 0, 1])) = Some ''no quorum (down; timeout)''"
proof -
  have a: "[exampleTuple] \<noteq> []" by simp
  have b: "(Delete, cluster_Delete) \<in> {(Insert, cluster_Insert), (Delete, cluster_Delete)}"
    by simp
  have c: "acknowledged farm_two_down (\<lambda>c. cluster_Delete c [exampleTuple]) = 1"
    by (simp add: acknowledged_def farm_two_down_def New_def replying_def)
  have d: "reply (the (Delete farm_two_down [exampleTuple] [2, 0, 1])) =
             Some ''no quorum (down; timeout)''"
    by (simp add: farm_two_down_def New_def scatter_def replying_def Delete_def write_farm_def
        writeJob_lambda haveQuorum_def)
  from write_quorum_iff[OF a all_reply_3 b] a all_reply_3 b c d
  show ?thesis by blast
qed

lemma write_farm_nonpositive:
  assumes "tuples \<noteq> []" and "all_reply f sched" and "writeQuorum f \<le> 0"
  shows "\<exists>i. write_farm f tuples act ins sched =
           Some \<lparr>reply = None, collected = (if clusters f = [] then 0 else 1), instr = i\<rparr>"
proof (cases "clusters f")
  case Nil
  then show ?thesis using assms by (simp add: write_farm_def haveQuorum_def writeJob_lambda)
next
  case (Cons c cs)
  have "length (scatter f (\<lambda>i c. act c tuples) sched) = Suc (length cs)"
    using scatter_length[OF assms(2)] Cons by simp
  then obtain r chan where ch: "scatter f (\<lambda>i c. act c tuples) sched = r # chan"
    by (metis length_Suc_conv)
  show ?thesis
    using assms(1,3) Cons ch gather_nonpositive[OF assms(3), of "length cs" r chan]
    by (cases r) (simp_all add: write_farm_def haveQuorum_def writeJob_lambda)
qed

text \<open>
  Claim C10. \<^verbatim>\<open>New\<close> stores the cluster list and \<open>writeQuorum\<close> as they are given. With
  \<open>writeQuorum\<close> above the number of clusters every non-empty \<^verbatim>\<open>Insert\<close> or \<^verbatim>\<open>Delete\<close> returns
  the quorum failure, also when every cluster acknowledges (the message is then
  \<open>no quorum ()\<close>). With \<open>writeQuorum \<le> 0\<close> every non-empty \<^verbatim>\<open>Insert\<close> or \<^verbatim>\<open>Delete\<close> returns
  \<^verbatim>\<open>nil\<close> having collected one reply, whatever that reply was (and no reply at all when the
  farm has no cluster).
\<close>

theorem New_unvalidated_quorum:
  assumes "tuples \<noteq> []" and "all_reply (New cs wq) sched"
    and "(wr, act) \<in> {(Insert, cluster_Insert), (Delete, cluster_Delete)}"
  shows "clusters (New cs wq) = cs \<and> writeQuorum (New cs wq) = wq \<and>
         (int (length cs) < wq \<longrightarrow>
            (\<exists>r. wr (New cs wq) tuples sched = Some r \<and> reply r \<noteq> None \<and>
                 ((\<forall>c \<in> set cs. act c tuples = None) \<longrightarrow> reply r = Some ''no quorum ()''))) \<and>
         (wq \<le> 0 \<longrightarrow>
            (\<exists>r. wr (New cs wq) tuples sched = Some r \<and> reply r = None \<and>
                 collected r = (if cs = [] then 0 else 1)))"
proof -
  let ?f = "New cs wq"
  have f: "clusters ?f = cs" "writeQuorum ?f = wq" by (simp_all add: New_def)
  obtain ins where wr: "wr ?f tuples sched = write_farm ?f tuples act ins sched"
    using assms(3) by (auto simp: Insert_def Delete_def)
  have over: "\<exists>r. wr ?f tuples sched = Some r \<and> reply r \<noteq> None \<and>
                 ((\<forall>c \<in> set cs. act c tuples = None) \<longrightarrow> reply r = Some ''no quorum ()'')"
    if "int (length cs) < wq"
  proof -
    have nq: "\<not> writeQuorum ?f \<le> int (acknowledged ?f (\<lambda>c. act c tuples))"
      using that acknowledged_le[of ?f "\<lambda>c. act c tuples"] f by simp
    have "error_texts (scatter ?f (\<lambda>i c. act c tuples) sched) = []"
      if ok: "\<forall>c \<in> set cs. act c tuples = None"
    proof (rule error_texts_all_None, rule ballI)
      fix x assume "x \<in> set (scatter ?f (\<lambda>i c. act c tuples) sched)"
      then have "x \<in> set (map (\<lambda>c. act c tuples) cs)"
        using scatter_const_mset[OF assms(2), of "\<lambda>c. act c tuples"] f
        by (metis set_mset_mset)
      with ok show "x = None" by auto
    qed
    with write_farm_failure[of tuples ?f sched act ins, OF assms(1,2) nq] wr
    show ?thesis by simp
  qed
  have under: "\<exists>r. wr ?f tuples sched = Some r \<and> reply r = None \<and>
                 collected r = (if cs = [] then 0 else 1)"
    if "wq \<le> 0"
    using write_farm_nonpositive[of tuples ?f sched act ins, OF assms(1,2)] that f wr by auto
  from f over under show ?thesis by blast
qed

theorem New_unvalidated_quorum_witness:
  "[exampleTuple] \<noteq> [] \<and>
   all_reply farm_over_quorum [1, 0] \<and> all_reply farm_zero_quorum [1, 0] \<and>
   (Insert, cluster_Insert) \<in> {(Insert, cluster_Insert), (Delete, cluster_Delete)} \<and>
   int (length (clusters farm_over_quorum)) < writeQuorum farm_over_quorum \<and>
   map (\<lambda>c. cluster_Insert c [exampleTuple]) (clusters farm_over_quorum) = [None, None] \<and>
   reply (the (Insert farm_over_quorum [exampleTuple] [1, 0])) = Some ''no quorum ()'' \<and>
   writeQuorum farm_zero_quorum \<le> 0 \<and>
   map (\<lambda>c. cluster_Insert c [exampleTuple]) (clusters farm_zero_quorum) =
     [Some ''down'', Some ''timeout''] \<and>
   reply (the (Insert farm_zero_quorum [exampleTuple] [1, 0])) = None \<and>
   collected (the (Insert farm_zero_quorum [exampleTuple] [1, 0])) = 1"
proof -
  have a: "[exampleTuple] \<noteq> []" by simp
  have b: "(Insert, cluster_Insert) \<in> {(Insert, cluster_Insert), (Delete, cluster_Delete)}"
    by simp
  have o: "all_reply farm_over_quorum [1, 0]"
    by (simp add: all_reply_def farm_over_quorum_def New_def upt_rec)
  have z: "all_reply farm_zero_quorum [1, 0]"
    by (simp add: all_reply_def farm_zero_quorum_def New_def upt_rec)
  have o1: "int (length (clusters farm_over_quorum)) < writeQuorum farm_over_quorum"
    and o2: "map (\<lambda>c. cluster_Insert c [exampleTuple]) (clusters farm_over_quorum) = [None, None]"
    by (simp_all add: farm_over_quorum_def New_def replying_def)
  have z1: "writeQuorum farm_zero_quorum \<le> 0"
    and z2: "map (\<lambda>c. cluster_Insert c [exampleTuple]) (clusters farm_zero_quorum) =
               [Some ''down'', Some ''timeout'']"
    by (simp_all add: farm_zero_quorum_def New_def replying_def)
  have o3: "\<forall>c \<in> set (clusters farm_over_quorum). cluster_Insert c [exampleTuple] = None"
    by (simp add: farm_over_quorum_def New_def replying_def)
  have "reply (the (Insert farm_over_quorum [exampleTuple] [1, 0])) = Some ''no quorum ()''"
    using New_unvalidated_quorum[OF a o[unfolded farm_over_quorum_def] b] o1 o3
    by (auto simp: farm_over_quorum_def New_def)
  moreover have "reply (the (Insert farm_zero_quorum [exampleTuple] [1, 0])) = None \<and>
    collected (the (Insert farm_zero_quorum [exampleTuple] [1, 0])) = 1"
    using New_unvalidated_quorum[OF a z[unfolded farm_zero_quorum_def] b] z1
    by (auto simp: farm_zero_quorum_def New_def)
  ultimately show ?thesis using a b o z o1 o2 z1 z2 by simp
qed

section \<open>Properties of the repair coordinator\<close>

lemma gatherScores_fold:
  "length chan = n \<Longrightarrow> gatherScores n chan v = Some (fold gatherStep chan v)"
  by (induction n chan v rule: gatherScores.induct) simp_all

lemma find_snoc:
  "find P (xs @ [x]) = (case find P xs of None \<Rightarrow> (if P x then Some x else None) | Some y \<Rightarrow> Some y)"
  by (induction xs) simp_all

lemma gather_inv_start:
  "gather_inv [] \<lparr>clustersUpToDate = {}, highestScore = 0, highestWasInserted = False,
            trace = [RepairCall, RepairRequestCount 1]\<rparr>"
  by (simp add: gather_inv_def)

lemma gather_inv_step:
  assumes "gather_inv xs v"
  shows "gather_inv (xs @ [x]) (gatherStep x v)"
proof -
  let ?hs = "highestScore v" and ?side = "highestWasInserted v"
  from assms have nonneg: "0 \<le> ?hs"
    and bound: "\<forall>r \<in> set xs. err r = None \<longrightarrow> score r \<le> ?hs"
    and first: "if ?hs = 0 then \<not> ?side
      else \<exists>r. find (\<lambda>r. err r = None \<and> score r = ?hs) xs = Some r \<and> wasInserted r = ?side"
    and upto: "clustersUpToDate v = cluster ` {r \<in> set xs. matches ?hs ?side r}"
    and tr: "trace v = [RepairCall, RepairRequestCount 1] @
       replicate (length (filter (\<lambda>r. err r \<noteq> None) xs)) RepairCheckPartialFailure"
    by (simp_all add: gather_inv_def)
  consider (failed) "err x \<noteq> None"
    | (same) "err x = None" "score x = ?hs" "wasInserted x = ?side"
    | (higher) "err x = None" "score x > ?hs"
    | (other) "err x = None" "\<not> (score x = ?hs \<and> wasInserted x = ?side)" "\<not> score x > ?hs"
    by blast
  then show ?thesis
  proof cases
    case failed
    then have st: "gatherStep x v = v\<lparr>trace := trace v @ [RepairCheckPartialFailure]\<rparr>"
      by (simp add: gatherStep_def)
    show ?thesis
      unfolding st gather_inv_def
      using failed nonneg bound first upto tr
      by (auto simp: find_snoc matches_def replicate_append_same split: option.splits if_splits)
  next
    case same
    then have st: "gatherStep x v = v\<lparr>clustersUpToDate := insert (cluster x) (clustersUpToDate v)\<rparr>"
      by (simp add: gatherStep_def)
    have "{r \<in> set (xs @ [x]). matches ?hs ?side r} = insert x {r \<in> set xs. matches ?hs ?side r}"
      using same by (auto simp: matches_def)
    then show ?thesis
      unfolding st gather_inv_def
      using same nonneg bound first upto tr
      by (auto simp: find_snoc split: option.splits if_splits)
  next
    case higher
    then have st: "gatherStep x v = v\<lparr>highestScore := score x,
             highestWasInserted := wasInserted x, clustersUpToDate := {cluster x}\<rparr>"
      by (simp add: gatherStep_def)
    have none: "find (\<lambda>r. err r = None \<and> score r = score x) xs = None"
      using bound higher by (fastforce simp: find_None_iff)
    have "{r \<in> set (xs @ [x]). matches (score x) (wasInserted x) r} = {x}"
      using higher bound by (fastforce simp: matches_def)
    then show ?thesis
      unfolding st gather_inv_def
      using higher nonneg bound tr none
      by (auto simp: find_snoc)
  next
    case other
    then have st: "gatherStep x v = v"
      by (auto simp: gatherStep_def)
    have "{r \<in> set (xs @ [x]). matches ?hs ?side r} = {r \<in> set xs. matches ?hs ?side r}"
      using other by (auto simp: matches_def)
    then show ?thesis
      unfolding st gather_inv_def
      using other nonneg bound first upto tr
      by (auto simp: find_snoc split: option.splits if_splits)
  qed
qed

lemma gather_inv_fold:
  "gather_inv chan (fold gatherStep chan \<lparr>clustersUpToDate = {}, highestScore = 0,
     highestWasInserted = False, trace = [RepairCall, RepairRequestCount 1]\<rparr>)"
proof (induction chan rule: rev_induct)
  case Nil
  show ?case using gather_inv_start by simp
next
  case (snoc x xs)
  then show ?case using gather_inv_step by simp
qed

lemma all_reply_set: "all_reply f sched \<Longrightarrow> set sched = {0..<length (clusters f)}"
  unfolding all_reply_def by (metis set_mset_mset set_upt)

lemma all_reply_length: "all_reply f sched \<Longrightarrow> length sched = length (clusters f)"
  unfolding all_reply_def by (metis size_mset length_upt diff_zero)

lemma matches_scoreJob:
  "matches hs side (scoreJob km i (clusters f ! i)) \<longleftrightarrow> score_reply f km i = (hs, side, None)"
  by (auto simp: matches_def scoreJob_def score_reply_def split: prod.splits)

lemma cluster_scoreJob [simp]: "cluster (scoreJob km i c) = i"
  by (simp add: scoreJob_def split: prod.splits)

lemma err_scoreJob:
  "err (scoreJob km i (clusters f ! i)) = None \<and> score (scoreJob km i (clusters f ! i)) = s \<longleftrightarrow>
   (\<exists>w. score_reply f km i = (s, w, None))"
  by (auto simp: scoreJob_def score_reply_def split: prod.splits)

lemma set_scatter:
  "all_reply f sched \<Longrightarrow>
   set (scatter f job sched) = (\<lambda>i. job i (clusters f ! i)) ` {0..<length (clusters f)}"
  by (simp add: scatter_def all_reply_set)

lemma Repair_gather_inv:
  assumes "all_reply f sched"
  shows "\<exists>v. Repair_gather f km sched = Some v \<and> gather_inv (scatter f (scoreJob km) sched) v"
proof -
  have "length (scatter f (scoreJob km) sched) = length (clusters f)"
    using all_reply_length[OF assms] by (simp add: scatter_def)
  then show ?thesis
    using gather_inv_fold[of "scatter f (scoreJob km) sched"]
    by (simp add: Repair_gather_def gatherScores_fold)
qed

lemma upToDate_iff:
  assumes "all_reply f sched" and "gather_inv (scatter f (scoreJob km) sched) v"
  shows "i \<in> clustersUpToDate v \<longleftrightarrow>
         i < length (clusters f) \<and>
         score_reply f km i = (highestScore v, highestWasInserted v, None)"
proof -
  from assms(2) have "clustersUpToDate v =
      cluster ` {r \<in> set (scatter f (scoreJob km) sched).
                 matches (highestScore v) (highestWasInserted v) r}"
    by (simp add: gather_inv_def)
  then have up: "clustersUpToDate v =
      cluster ` {r \<in> (\<lambda>i. scoreJob km i (clusters f ! i)) ` {0..<length (clusters f)}.
                 matches (highestScore v) (highestWasInserted v) r}"
    by (simp only: set_scatter[OF assms(1)])
  show ?thesis
  proof
    assume "i \<in> clustersUpToDate v"
    then obtain j where "j < length (clusters f)" "i = j"
      "matches (highestScore v) (highestWasInserted v) (scoreJob km j (clusters f ! j))"
      unfolding up by auto
    then show "i < length (clusters f) \<and>
         score_reply f km i = (highestScore v, highestWasInserted v, None)"
      by (simp add: matches_scoreJob)
  next
    assume a: "i < length (clusters f) \<and>
         score_reply f km i = (highestScore v, highestWasInserted v, None)"
    then have "matches (highestScore v) (highestWasInserted v) (scoreJob km i (clusters f ! i))"
      by (simp add: matches_scoreJob)
    with a have "scoreJob km i (clusters f ! i) \<in>
        {r \<in> (\<lambda>i. scoreJob km i (clusters f ! i)) ` {0..<length (clusters f)}.
                 matches (highestScore v) (highestWasInserted v) r}"
      by simp
    then have "cluster (scoreJob km i (clusters f ! i)) \<in> clustersUpToDate v"
      unfolding up by (rule imageI)
    then show "i \<in> clustersUpToDate v" by simp
  qed
qed

lemma upToDate_card:
  assumes "all_reply f sched" and "gather_inv (scatter f (scoreJob km) sched) v"
  shows "card (clustersUpToDate v) = length (clusters f) \<longleftrightarrow>
         (\<forall>i < length (clusters f).
            score_reply f km i = (highestScore v, highestWasInserted v, None))"
proof -
  let ?n = "length (clusters f)"
  have sub: "clustersUpToDate v \<subseteq> {0..<?n}"
  proof
    fix i assume "i \<in> clustersUpToDate v"
    then have "i < ?n" using upToDate_iff[OF assms, of i] by simp
    then show "i \<in> {0..<?n}" by simp
  qed
  have "card (clustersUpToDate v) = ?n \<longleftrightarrow> clustersUpToDate v = {0..<?n}"
  proof
    assume "card (clustersUpToDate v) = ?n"
    then show "clustersUpToDate v = {0..<?n}"
      using sub by (simp add: card_subset_eq)
  next
    assume "clustersUpToDate v = {0..<?n}"
    then show "card (clustersUpToDate v) = ?n" by simp
  qed
  also have "\<dots> \<longleftrightarrow> (\<forall>i < ?n. i \<in> clustersUpToDate v)"
    using sub by auto
  also have "\<dots> \<longleftrightarrow> (\<forall>i < ?n.
            score_reply f km i = (highestScore v, highestWasInserted v, None))"
    by (simp only: upToDate_iff[OF assms]) simp
  finally show ?thesis .
qed

lemma filter_eq_upt: "filter (\<lambda>j. j = i) [0..<n] = (if i < n then [i] else [])"
  by (induction n) auto

lemma pushes_to:
  assumes "i < n" and "\<And>j. target (mk j) = j"
  shows "filter (\<lambda>p. target p = i) (map mk (filter L [0..<n])) = (if L i then [mk i] else [])"
proof -
  have "filter (\<lambda>p. target p = i) (map mk (filter L [0..<n])) =
        map mk (filter (\<lambda>j. j = i) (filter L [0..<n]))"
    by (simp add: filter_map comp_def assms(2))
  also have "filter (\<lambda>j. j = i) (filter L [0..<n]) = filter L (filter (\<lambda>j. j = i) [0..<n])"
    by (simp add: conj_commute)
  finally show ?thesis using assms(1) by (simp add: filter_eq_upt)
qed

lemma highest_is_Max:
  assumes "all_reply f sched" and "gather_inv (scatter f (scoreJob km) sched) v"
    and "i < length (clusters f)" and "score_reply f km i = (s, w, None)" and "0 < s"
  shows "highestScore v = Max {s. \<exists>i < length (clusters f). \<exists>w. score_reply f km i = (s, w, None)}"
    and "0 < highestScore v"
    and "\<exists>r. find (\<lambda>r. err r = None \<and> score r = highestScore v)
                (scatter f (scoreJob km) sched) = Some r \<and>
             highestWasInserted v = wasInserted r"
proof -
  let ?chan = "scatter f (scoreJob km) sched"
  let ?S = "{s. \<exists>i < length (clusters f). \<exists>w. score_reply f km i = (s, w, None)}"
  let ?hs = "highestScore v"
  from assms(2) have bound: "\<forall>r \<in> set ?chan. err r = None \<longrightarrow> score r \<le> ?hs"
    and first: "?hs \<noteq> 0 \<Longrightarrow> \<exists>r. find (\<lambda>r. err r = None \<and> score r = ?hs) ?chan = Some r \<and>
               wasInserted r = highestWasInserted v"
    by (auto simp: gather_inv_def split: if_splits)
  have in_chan: "scoreJob km i (clusters f ! i) \<in> set ?chan"
    using assms(3) by (simp add: set_scatter[OF assms(1)])
  have "s \<le> ?hs"
    using bound in_chan assms(4) err_scoreJob[of km i f s] by blast
  with assms(5) show pos: "0 < ?hs" by simp
  then obtain r where r: "find (\<lambda>r. err r = None \<and> score r = ?hs) ?chan = Some r"
      "wasInserted r = highestWasInserted v"
    using first by auto
  then show "\<exists>r. find (\<lambda>r. err r = None \<and> score r = ?hs) ?chan = Some r \<and>
             highestWasInserted v = wasInserted r" by auto
  from r(1) have "r \<in> set ?chan" "err r = None" "score r = ?hs"
    by (auto simp: find_Some_iff)
  then obtain j where j: "j < length (clusters f)" "r = scoreJob km j (clusters f ! j)"
    "err r = None" "score r = ?hs"
    by (auto simp: set_scatter[OF assms(1)])
  then have "\<exists>w. score_reply f km j = (?hs, w, None)"
    using err_scoreJob[of km j f ?hs] by simp
  with j(1) have mem: "?hs \<in> ?S" by blast
  have "?S \<subseteq> (\<lambda>i. fst (score_reply f km i)) ` {0..<length (clusters f)}"
    by force
  then have fin: "finite ?S" by (rule finite_subset) simp
  have le: "\<And>t. t \<in> ?S \<Longrightarrow> t \<le> ?hs"
  proof -
    fix t assume "t \<in> ?S"
    then obtain j u where j: "j < length (clusters f)" "score_reply f km j = (t, u, None)" by auto
    then have "scoreJob km j (clusters f ! j) \<in> set ?chan"
      by (simp add: set_scatter[OF assms(1)])
    with bound j(2) err_scoreJob[of km j f t] show "t \<le> ?hs" by blast
  qed
  have "Max ?S = ?hs"
    by (rule Max_eqI) (rule fin, rule le, assumption, rule mem)
  then show "?hs = Max ?S" by (rule sym)
qed

lemma failed_count:
  "gather_inv chan v \<Longrightarrow>
   trace v = [RepairCall, RepairRequestCount 1] @
     replicate (length (filter (\<lambda>r. err r \<noteq> None) chan)) RepairCheckPartialFailure"
  by (simp add: gather_inv_def)

text \<open>
  Claim C4. Let every cluster reply and let some score query succeed with a positive score.
  Then the gather loop elects the maximum of the scores delivered without error, with the
  side of the first response that carries it; and \<^verbatim>\<open>Repair\<close> pushes, to every cluster whose
  reply is not the elected score and side without error (a failed query included), exactly
  one write of the single tuple (key, elected score, member), an \<^verbatim>\<open>Insert\<close> when the elected
  side is inserted and a \<^verbatim>\<open>Delete\<close> otherwise, and nothing to any other cluster.
\<close>

theorem Repair_propagates:
  assumes "all_reply f sched"
    and "i < length (clusters f)" and "score_reply f km i = (s, w, None)" and "0 < s"
  shows "\<exists>v out first.
     Repair_gather f km sched = Some v \<and>
     highestScore v =
       Max {s. \<exists>i < length (clusters f). \<exists>w. score_reply f km i = (s, w, None)} \<and>
     find (\<lambda>r. err r = None \<and> score r = highestScore v) (scatter f (scoreJob km) sched) =
       Some first \<and>
     highestWasInserted v = wasInserted first \<and>
     Repair f km sched = Some out \<and>
     (\<forall>p \<in> set (pushed out). target p < length (clusters f)) \<and>
     (\<forall>j < length (clusters f).
        filter (\<lambda>p. target p = j) (pushed out) =
          (if score_reply f km j = (highestScore v, highestWasInserted v, None) then []
           else [\<lparr>target = j,
                  kind = (if highestWasInserted v then PushInsert else PushDelete),
                  payload = [\<lparr>Key = kmKey km, Score = highestScore v,
                               Member = kmMember km\<rparr>]\<rparr>]))"
proof -
  let ?n = "length (clusters f)"
  obtain v where g: "Repair_gather f km sched = Some v"
    and inv: "gather_inv (scatter f (scoreJob km) sched) v"
    using Repair_gather_inv[OF assms(1)] by blast
  note hi = highest_is_Max[OF assms(1) inv assms(2,3,4)]
  from hi(3) obtain first where
    first: "find (\<lambda>r. err r = None \<and> score r = highestScore v) (scatter f (scoreJob km) sched) =
       Some first" "highestWasInserted v = wasInserted first" by blast
  let ?agree = "\<lambda>j. score_reply f km j = (highestScore v, highestWasInserted v, None)"
  let ?mk = "\<lambda>j. \<lparr>target = j,
                  kind = (if highestWasInserted v then PushInsert else PushDelete),
                  payload = [\<lparr>Key = kmKey km, Score = highestScore v,
                               Member = kmMember km\<rparr>]\<rparr>"
  have lag: "j \<notin> clustersUpToDate v \<longleftrightarrow> \<not> ?agree j" if "j < ?n" for j
    using upToDate_iff[OF assms(1) inv, of j] that by simp
  show ?thesis
  proof (cases "card (clustersUpToDate v) = ?n")
    case True
    then have all: "\<forall>j < ?n. ?agree j"
      using upToDate_card[OF assms(1) inv] by simp
    have "Repair f km sched =
            Some \<lparr>pushed = [], events = trace v @ [RepairCheckDuration] @ [RepairCheckRedundant]\<rparr>"
      using g hi(2) True by (simp add: Repair_def)
    with g hi(1) first all show ?thesis by simp
  next
    case False
    let ?lagging = "filter (\<lambda>j. j \<notin> clustersUpToDate v) [0..<?n]"
    obtain ev where out: "Repair f km sched = Some \<lparr>pushed = map ?mk ?lagging, events = ev\<rparr>"
      using g hi(2) False by (simp add: Repair_def Let_def)
    have tg: "\<forall>p \<in> set (map ?mk ?lagging). target p < ?n" by auto
    have each: "filter (\<lambda>p. target p = j) (map ?mk ?lagging) = (if ?agree j then [] else [?mk j])"
      if "j < ?n" for j
      using pushes_to[of j ?n ?mk "\<lambda>j. j \<notin> clustersUpToDate v", OF that] lag[OF that]
      by simp
    from g hi(1) first out tg each show ?thesis by simp
  qed
qed

text \<open>
  Claim C7. Let every cluster reply and let no score query succeed with a positive score
  (all of them may have failed). Then the elected score is 0 and \<^verbatim>\<open>Repair\<close> pushes no write:
  after one \<^verbatim>\<open>RepairCheckPartialFailure\<close> for each failed query it calls
  \<^verbatim>\<open>RepairCheckCompleteFailure\<close> and returns.
\<close>

theorem Repair_nothing_found:
  assumes "all_reply f sched"
    and "\<forall>i < length (clusters f). \<forall>s w. score_reply f km i = (s, w, None) \<longrightarrow> s \<le> 0"
  shows "\<exists>v. Repair_gather f km sched = Some v \<and> highestScore v = 0 \<and>
     Repair f km sched =
       Some \<lparr>pushed = [],
             events = [RepairCall, RepairRequestCount 1] @
               replicate (length (filter (\<lambda>r. err r \<noteq> None) (scatter f (scoreJob km) sched)))
                 RepairCheckPartialFailure @
               [RepairCheckDuration, RepairCheckCompleteFailure]\<rparr>"
proof -
  let ?chan = "scatter f (scoreJob km) sched"
  obtain v where g: "Repair_gather f km sched = Some v" and inv: "gather_inv ?chan v"
    using Repair_gather_inv[OF assms(1)] by blast
  have zero: "highestScore v = 0"
  proof (rule ccontr)
    assume nz: "highestScore v \<noteq> 0"
    from inv have "0 \<le> highestScore v" by (simp add: gather_inv_def)
    with nz have pos: "0 < highestScore v" by simp
    from inv nz obtain r where "find (\<lambda>r. err r = None \<and> score r = highestScore v) ?chan = Some r"
      by (auto simp: gather_inv_def split: if_splits)
    then have "r \<in> set ?chan" "err r = None" "score r = highestScore v"
      by (auto simp: find_Some_iff)
    then obtain j where j: "j < length (clusters f)" "r = scoreJob km j (clusters f ! j)"
      "err r = None" "score r = highestScore v"
      by (auto simp: set_scatter[OF assms(1)])
    then have "\<exists>w. score_reply f km j = (highestScore v, w, None)"
      using err_scoreJob[of km j f "highestScore v"] by simp
    with assms(2) j(1) have "highestScore v \<le> 0" by blast
    with pos show False by simp
  qed
  from g zero failed_count[OF inv] show ?thesis by (simp add: Repair_def)
qed

text \<open>
  Claim C8, amended. Let every cluster reply without error with the elected score and side.
  Then \<^verbatim>\<open>Repair\<close> pushes no write. When the elected score is positive it calls
  \<^verbatim>\<open>RepairCheckRedundant\<close>; when the elected score is 0 it calls
  \<^verbatim>\<open>RepairCheckCompleteFailure\<close>, because the test \<^verbatim>\<open>highestScore == 0.\<close> comes first.
\<close>

theorem Repair_all_agree:
  assumes "all_reply f sched" and "Repair_gather f km sched = Some v"
    and "\<forall>i < length (clusters f).
           score_reply f km i = (highestScore v, highestWasInserted v, None)"
  shows "\<exists>out. Repair f km sched = Some out \<and> pushed out = [] \<and>
     (0 < highestScore v \<longrightarrow>
        events out = [RepairCall, RepairRequestCount 1, RepairCheckDuration,
                      RepairCheckRedundant]) \<and>
     (highestScore v = 0 \<longrightarrow>
        events out = [RepairCall, RepairRequestCount 1, RepairCheckDuration,
                      RepairCheckCompleteFailure])"
proof -
  let ?chan = "scatter f (scoreJob km) sched"
  have inv: "gather_inv ?chan v"
    using Repair_gather_inv[OF assms(1), of km] assms(2) by simp
  have card: "card (clustersUpToDate v) = length (clusters f)"
    using upToDate_card[OF assms(1) inv] assms(3) by simp
  have "err r = None" if "r \<in> set ?chan" for r
  proof -
    from that obtain j where "j < length (clusters f)" "r = scoreJob km j (clusters f ! j)"
      by (auto simp: set_scatter[OF assms(1)])
    with assms(3) show ?thesis
      using matches_scoreJob[of "highestScore v" "highestWasInserted v" km j f]
      by (simp add: matches_def)
  qed
  then have "filter (\<lambda>r. err r \<noteq> None) ?chan = []"
    by (simp add: filter_empty_conv)
  with failed_count[OF inv] have "trace v = [RepairCall, RepairRequestCount 1]" by simp
  with assms(2) card show ?thesis
    by (cases "highestScore v = 0") (simp_all add: Repair_def Let_def)
qed

lemmas repair_eval =
  Repair_def Repair_gather_def scatter_def scoreJob_def gatherStep_def pushJob_def
  replying_def New_def exampleKM_def score_reply_def Let_def upt_rec

theorem Repair_propagates_witness:
  "all_reply farm_lagging [2, 0, 1] \<and> 0 < length (clusters farm_lagging) \<and>
   score_reply farm_lagging exampleKM 0 = (3, True, None) \<and> (0::real) < 3 \<and>
   Repair farm_lagging exampleKM [2, 0, 1] =
     Some \<lparr>pushed = [\<lparr>target = 2, kind = PushInsert,
                       payload = [\<lparr>Key = ''k'', Score = 3, Member = ''m''\<rparr>]\<rparr>],
           events = [RepairCall, RepairRequestCount 1, RepairCheckDuration, RepairWriteCount,
                     RepairWriteSuccess, RepairWriteDuration]\<rparr> \<and>
   (\<exists>v. Repair_gather farm_lagging exampleKM [2, 0, 1] = Some v \<and>
      highestScore v =
        Max {s. \<exists>i < length (clusters farm_lagging).
                  \<exists>w. score_reply farm_lagging exampleKM i = (s, w, None)})"
proof -
  have h1: "all_reply farm_lagging [2, 0, 1]"
    by (simp add: all_reply_def farm_lagging_def New_def upt_rec)
  have h2: "0 < length (clusters farm_lagging)"
    by (simp add: farm_lagging_def New_def)
  have h3: "score_reply farm_lagging exampleKM 0 = (3, True, None)"
    by (simp add: farm_lagging_def repair_eval)
  have h4: "(0::real) < 3" by simp
  have c: "Repair farm_lagging exampleKM [2, 0, 1] =
     Some \<lparr>pushed = [\<lparr>target = 2, kind = PushInsert,
                       payload = [\<lparr>Key = ''k'', Score = 3, Member = ''m''\<rparr>]\<rparr>],
           events = [RepairCall, RepairRequestCount 1, RepairCheckDuration, RepairWriteCount,
                     RepairWriteSuccess, RepairWriteDuration]\<rparr>"
    by (simp add: farm_lagging_def repair_eval)
  have d: "\<exists>v. Repair_gather farm_lagging exampleKM [2, 0, 1] = Some v \<and>
      highestScore v =
        Max {s. \<exists>i < length (clusters farm_lagging).
                  \<exists>w. score_reply farm_lagging exampleKM i = (s, w, None)}"
    using Repair_propagates[OF h1 h2 h3 h4] by blast
  show ?thesis by (intro conjI h1 h2 h3 h4 c d)
qed

theorem Repair_nothing_found_witness:
  "all_reply farm_unreachable [1, 2, 0] \<and>
   map (score_reply farm_unreachable exampleKM) [0, 1, 2] =
     [(0, False, Some ''down''), (0, False, None), (0, False, Some ''timeout'')] \<and>
   Repair farm_unreachable exampleKM [1, 2, 0] =
     Some \<lparr>pushed = [],
           events = [RepairCall, RepairRequestCount 1, RepairCheckPartialFailure,
                     RepairCheckPartialFailure, RepairCheckDuration,
                     RepairCheckCompleteFailure]\<rparr>"
proof -
  have h1: "all_reply farm_unreachable [1, 2, 0]"
    by (simp add: all_reply_def farm_unreachable_def New_def upt_rec)
  have h2: "\<forall>i < length (clusters farm_unreachable). \<forall>s w.
              score_reply farm_unreachable exampleKM i = (s, w, None) \<longrightarrow> s \<le> 0"
    by (simp add: farm_unreachable_def repair_eval less_Suc_eq)
  have m: "map (score_reply farm_unreachable exampleKM) [0, 1, 2] =
     [(0, False, Some ''down''), (0, False, None), (0, False, Some ''timeout'')]"
    by (simp add: farm_unreachable_def repair_eval)
  have n: "length (filter (\<lambda>r. err r \<noteq> None)
             (scatter farm_unreachable (scoreJob exampleKM) [1, 2, 0])) = 2"
    by (simp add: farm_unreachable_def repair_eval)
  have c: "Repair farm_unreachable exampleKM [1, 2, 0] =
     Some \<lparr>pushed = [],
           events = [RepairCall, RepairRequestCount 1, RepairCheckPartialFailure,
                     RepairCheckPartialFailure, RepairCheckDuration,
                     RepairCheckCompleteFailure]\<rparr>"
    using Repair_nothing_found[OF h1 h2] n by (auto simp: numeral_2_eq_2)
  show ?thesis by (intro conjI h1 m c)
qed

text \<open>
  Against claim C8 as stated. Three clusters that do not know the pair answer the score query
  with (0, deleted) and no error. All three replies equal the elected (0, deleted), and
  all three clusters are in \<open>clustersUpToDate\<close>; no write is pushed, but the counter called is
  \<^verbatim>\<open>RepairCheckCompleteFailure\<close>, not \<^verbatim>\<open>RepairCheckRedundant\<close>.
\<close>

theorem Repair_redundant_counterexample:
  "all_reply farm_unknown [0, 1, 2] \<and>
   map (score_reply farm_unknown exampleKM) [0, 1, 2] =
     [(0, False, None), (0, False, None), (0, False, None)] \<and>
   Repair_gather farm_unknown exampleKM [0, 1, 2] =
     Some \<lparr>clustersUpToDate = {0, 1, 2}, highestScore = 0, highestWasInserted = False,
           trace = [RepairCall, RepairRequestCount 1]\<rparr> \<and>
   Repair farm_unknown exampleKM [0, 1, 2] =
     Some \<lparr>pushed = [],
           events = [RepairCall, RepairRequestCount 1, RepairCheckDuration,
                     RepairCheckCompleteFailure]\<rparr>"
  by (auto simp: all_reply_def farm_unknown_def repair_eval)

theorem Repair_all_agree_witness:
  "all_reply farm_agreeing [1, 0, 2] \<and>
   Repair_gather farm_agreeing exampleKM [1, 0, 2] =
     Some \<lparr>clustersUpToDate = {0, 1, 2}, highestScore = 3, highestWasInserted = True,
           trace = [RepairCall, RepairRequestCount 1]\<rparr> \<and>
   map (score_reply farm_agreeing exampleKM) [0, 1, 2] =
     [(3, True, None), (3, True, None), (3, True, None)] \<and>
   (\<exists>out. Repair farm_agreeing exampleKM [1, 0, 2] = Some out \<and> pushed out = [] \<and>
      events out = [RepairCall, RepairRequestCount 1, RepairCheckDuration,
                    RepairCheckRedundant])"
proof -
  let ?v = "\<lparr>clustersUpToDate = {0, 1, 2}, highestScore = 3, highestWasInserted = True,
           trace = [RepairCall, RepairRequestCount 1]\<rparr>"
  have h1: "all_reply farm_agreeing [1, 0, 2]"
    by (simp add: all_reply_def farm_agreeing_def New_def upt_rec)
  have h2: "Repair_gather farm_agreeing exampleKM [1, 0, 2] = Some ?v"
    by (auto simp: farm_agreeing_def repair_eval)
  have h3: "\<forall>i < length (clusters farm_agreeing).
           score_reply farm_agreeing exampleKM i = (highestScore ?v, highestWasInserted ?v, None)"
    by (simp add: farm_agreeing_def repair_eval less_Suc_eq)
  have m: "map (score_reply farm_agreeing exampleKM) [0, 1, 2] =
     [(3, True, None), (3, True, None), (3, True, None)]"
    by (simp add: farm_agreeing_def repair_eval)
  have c: "\<exists>out. Repair farm_agreeing exampleKM [1, 0, 2] = Some out \<and> pushed out = [] \<and>
      events out = [RepairCall, RepairRequestCount 1, RepairCheckDuration,
                    RepairCheckRedundant]"
    using Repair_all_agree[OF h1 h2 h3] by simp
  show ?thesis by (intro conjI h1 h2 m c)
qed


section \<open>Properties of union and difference\<close>

lemma scores_step:
  "fst (tallyTuple x acc) =
     (case map_of (fst acc) (kmOf x) of
        None \<Rightarrow> AList.update (kmOf x) (Score x) (fst acc)
      | Some s \<Rightarrow> if Score x > s then AList.update (kmOf x) (Score x) (fst acc) else fst acc)"
  by (cases acc) (auto simp: tallyTuple_def Let_def kmOf_def split: option.splits)

lemma counts_step:
  "snd (tallyTuple x acc) =
     AList.update x ((case map_of (snd acc) x of None \<Rightarrow> 0 | Some n \<Rightarrow> n) + 1) (snd acc)"
  by (cases acc) (auto simp: tallyTuple_def Let_def split: option.splits)

lemma best_Nil [simp]: "\<not> best [] km s"
  by (simp add: best_def)

lemma best_unique: "best xs km s \<Longrightarrow> best xs km s' \<Longrightarrow> s = s'"
  by (auto simp: best_def intro: antisym)

lemma best_snoc_other: "kmOf x \<noteq> km \<Longrightarrow> best (xs @ [x]) km s \<longleftrightarrow> best xs km s"
  by (auto simp: best_def)

lemma best_exists:
  assumes "t \<in> set xs" and "kmOf t = km"
  shows "\<exists>s. best xs km s"
proof -
  let ?S = "Score ` {t \<in> set xs. kmOf t = km}"
  have fin: "finite ?S" by simp
  have ne: "?S \<noteq> {}" using assms by auto
  have "Max ?S \<in> ?S" by (rule Max_in[OF fin ne])
  then obtain t0 where "t0 \<in> set xs" "kmOf t0 = km" "Score t0 = Max ?S" by auto
  moreover have "\<forall>t \<in> set xs. kmOf t = km \<longrightarrow> Score t \<le> Max ?S"
    using Max_ge[OF fin] by auto
  ultimately show ?thesis unfolding best_def by blast
qed

lemma best_snoc_same:
  "kmOf x = km \<Longrightarrow>
   best (xs @ [x]) km s \<longleftrightarrow>
     (if \<exists>s0. best xs km s0 then (\<exists>s0. best xs km s0 \<and> s = max s0 (Score x))
      else (\<forall>t \<in> set xs. kmOf t \<noteq> km) \<and> s = Score x)"
proof -
  assume km: "kmOf x = km"
  show ?thesis
  proof (cases "\<exists>s0. best xs km s0")
    case True
    then obtain s0 where s0: "best xs km s0" by blast
    have "best (xs @ [x]) km s \<longleftrightarrow> s = max s0 (Score x)"
      using s0 km unfolding best_def by (auto simp: max_def) (blast intro: antisym)+
    moreover have "(\<exists>s1. best xs km s1 \<and> s = max s1 (Score x)) \<longleftrightarrow> s = max s0 (Score x)"
      using s0 best_unique by blast
    ultimately show ?thesis using True by simp
  next
    case False
    have none: "\<forall>t \<in> set xs. kmOf t \<noteq> km"
      using False best_exists by blast
    then have "best (xs @ [x]) km s \<longleftrightarrow> s = Score x"
      using km unfolding best_def by auto
    with False none show ?thesis by simp
  qed
qed

lemma fold_fold_concat: "fold (\<lambda>xs acc. fold f xs acc) xss a = fold f (concat xss) a"
  by (induction xss arbitrary: a) simp_all

lemma tally_scores:
  "distinct (map fst (fst (fold tallyTuple xs ([], [])))) \<and>
   (\<forall>km s. map_of (fst (fold tallyTuple xs ([], []))) km = Some s \<longleftrightarrow> best xs km s)"
proof (induction xs rule: rev_induct)
  case Nil
  show ?case by simp
next
  case (snoc x xs)
  let ?acc = "fold tallyTuple xs ([], [])"
  let ?new = "fst (tallyTuple x ?acc)"
  from snoc have d: "distinct (map fst (fst ?acc))"
    and m: "\<And>km s. map_of (fst ?acc) km = Some s \<longleftrightarrow> best xs km s" by simp_all
  have st: "fst (fold tallyTuple (xs @ [x]) ([], [])) = ?new" by simp
  have other: "map_of (fst ?acc) km = Some s \<longleftrightarrow> best (xs @ [x]) km s"
    if "km \<noteq> kmOf x" for km s
    using that m best_snoc_other[of x km xs s] by simp
  have "distinct (map fst ?new) \<and>
        (\<forall>km s. map_of ?new km = Some s \<longleftrightarrow> best (xs @ [x]) km s)"
  proof (cases "map_of (fst ?acc) (kmOf x)")
    case None
    then have nb: "\<not> (\<exists>s0. best xs (kmOf x) s0)" using m by (metis option.distinct(1))
    have eq: "?new = AList.update (kmOf x) (Score x) (fst ?acc)"
      using None by (simp add: scores_step)
    have none: "\<forall>t \<in> set xs. kmOf t \<noteq> kmOf x"
      using nb best_exists by blast
    have bs: "best (xs @ [x]) (kmOf x) s \<longleftrightarrow> s = Score x" for s
      using best_snoc_same[of x "kmOf x" xs s] nb none by simp
    have "map_of ?new km = Some s \<longleftrightarrow> best (xs @ [x]) km s" for km s
      unfolding eq using bs other by (cases "km = kmOf x") (auto simp: update_conv')
    then show ?thesis using d by (simp add: eq distinct_update)
  next
    case (Some s0)
    then have b0: "best xs (kmOf x) s0" using m by simp
    then have ex: "\<exists>s0. best xs (kmOf x) s0" by blast
    have bs: "best (xs @ [x]) (kmOf x) s \<longleftrightarrow> s = max s0 (Score x)" for s
      using best_snoc_same[of x "kmOf x" xs s] ex b0 best_unique by auto
    show ?thesis
    proof (cases "Score x > s0")
      case True
      have eq: "?new = AList.update (kmOf x) (Score x) (fst ?acc)"
        using Some True by (simp add: scores_step)
      have "map_of ?new km = Some s \<longleftrightarrow> best (xs @ [x]) km s" for km s
        unfolding eq using bs True other
        by (cases "km = kmOf x") (auto simp: update_conv' max_def)
      then show ?thesis using d by (simp add: eq distinct_update)
    next
      case False
      have eq: "?new = fst ?acc"
        using Some False by (simp add: scores_step)
      have "map_of ?new km = Some s \<longleftrightarrow> best (xs @ [x]) km s" for km s
        unfolding eq using bs False other Some
        by (cases "km = kmOf x") (auto simp: max_def)
      then show ?thesis using d by (simp add: eq)
    qed
  qed
  then show ?case unfolding st .
qed

lemma tally_counts:
  "distinct (map fst (snd (fold tallyTuple xs ([], [])))) \<and>
   (\<forall>t. map_of (snd (fold tallyTuple xs ([], []))) t =
          (if t \<in> set xs then Some (int (count_list xs t)) else None))"
proof (induction xs rule: rev_induct)
  case Nil
  show ?case by simp
next
  case (snoc x xs)
  let ?acc = "fold tallyTuple xs ([], [])"
  from snoc have d: "distinct (map fst (snd ?acc))"
    and m: "\<And>t. map_of (snd ?acc) t =
          (if t \<in> set xs then Some (int (count_list xs t)) else None)" by simp_all
  have st: "snd (fold tallyTuple (xs @ [x]) ([], [])) = snd (tallyTuple x ?acc)" by simp
  have z: "x \<notin> set xs \<Longrightarrow> count_list xs x = 0" by simp
  show ?case
    unfolding st counts_step
    using d m z by (auto simp: distinct_update update_conv')
qed

lemma elems_add [simp]: "elems (add x s) = insert x (elems s)"
  by (simp add: elems_def add_def)

lemma elems_empty [simp]: "elems Dlist.empty = {}"
  by (simp add: elems_def)

lemma elems_fold_add:
  "elems (fold (\<lambda>x s. if P x then add (g x) s else s) xs s0) = g ` {x \<in> set xs. P x} \<union> elems s0"
  by (induction xs arbitrary: s0) auto

lemma set_all_inputs: "set (concat (map slice tss)) = all_inputs tss"
  by (simp add: all_inputs_def elems_def slice_def)

lemma count_distinct: "distinct xs \<Longrightarrow> count_list xs t = (if t \<in> set xs then 1 else 0)"
  by (induction xs) auto

lemma count_concat_slices:
  "count_list (concat (map slice tss)) t = length (filter (\<lambda>ts. t \<in> elems ts) tss)"
  by (induction tss) (simp_all add: count_list_append count_distinct slice_def elems_def)

lemma filter_short: "length (filter P xs) < length xs \<longleftrightarrow> (\<exists>x \<in> set xs. \<not> P x)"
proof
  assume "length (filter P xs) < length xs"
  then have "filter P xs \<noteq> xs" by auto
  then show "\<exists>x \<in> set xs. \<not> P x" by (simp add: filter_id_conv)
next
  assume "\<exists>x \<in> set xs. \<not> P x"
  then show "length (filter P xs) < length xs" by (auto intro: length_filter_less)
qed

lemma union_elems:
  "t \<in> elems (fst (unionDifference tss)) \<longleftrightarrow>
   best (concat (map slice tss)) (kmOf t) (Score t)"
proof -
  let ?all = "concat (map slice tss)"
  let ?sc = "fst (fold tallyTuple ?all ([], []))"
  let ?g = "\<lambda>p. \<lparr>Key = kmKey (fst p), Score = snd p, Member = kmMember (fst p)\<rparr>"
  have f: "fold (\<lambda>tupleSet acc. fold tallyTuple (slice tupleSet) acc) tss ([], []) =
           fold tallyTuple ?all ([], [])"
    using fold_fold_concat[of tallyTuple "map slice tss" "([], [])"] by (simp add: fold_map comp_def)
  have "fst (unionDifference tss) = fold (\<lambda>p s. if True then add (?g p) s else s) ?sc Dlist.empty"
    by (simp add: unionDifference_def Let_def f case_prod_unfold)
  then have "elems (fst (unionDifference tss)) = ?g ` set ?sc"
    by (simp only: elems_fold_add) simp
  also have "t \<in> ?g ` set ?sc \<longleftrightarrow> (kmOf t, Score t) \<in> set ?sc"
  proof
    assume "t \<in> ?g ` set ?sc"
    then obtain p where p: "p \<in> set ?sc" "t = ?g p" by blast
    have "\<lparr>kmKey = kmKey (fst p), kmMember = kmMember (fst p)\<rparr> = fst p" by simp
    then have "(kmOf t, Score t) = p" using p(2) by (simp add: kmOf_def prod_eq_iff)
    with p(1) show "(kmOf t, Score t) \<in> set ?sc" by simp
  next
    assume "(kmOf t, Score t) \<in> set ?sc"
    then have "?g (kmOf t, Score t) \<in> ?g ` set ?sc" by (rule imageI)
    moreover have "?g (kmOf t, Score t) = t" by (simp add: kmOf_def)
    ultimately show "t \<in> ?g ` set ?sc" by (simp only:)
  qed
  also have "\<dots> \<longleftrightarrow> map_of ?sc (kmOf t) = Some (Score t)"
  proof -
    have "distinct (map fst ?sc)" using tally_scores[of ?all] by blast
    then show ?thesis by simp
  qed
  also have "\<dots> \<longleftrightarrow> best ?all (kmOf t) (Score t)"
    using tally_scores[of ?all] by blast
  finally show ?thesis .
qed

lemma difference_elems:
  "km \<in> elems (snd (unionDifference tss)) \<longleftrightarrow>
   (\<exists>t \<in> all_inputs tss. kmOf t = km \<and> (\<exists>ts \<in> set tss. t \<notin> elems ts))"
proof -
  let ?all = "concat (map slice tss)"
  let ?cn = "snd (fold tallyTuple ?all ([], []))"
  let ?P = "\<lambda>p. snd p < int (length tss)"
  have f: "fold (\<lambda>tupleSet acc. fold tallyTuple (slice tupleSet) acc) tss ([], []) =
           fold tallyTuple ?all ([], [])"
    using fold_fold_concat[of tallyTuple "map slice tss" "([], [])"] by (simp add: fold_map comp_def)
  have "snd (unionDifference tss) =
          fold (\<lambda>p s. if ?P p then add \<lparr>kmKey = Key (fst p), kmMember = Member (fst p)\<rparr> s
                       else s) ?cn Dlist.empty"
    by (simp add: unionDifference_def Let_def f case_prod_unfold)
  then have "elems (snd (unionDifference tss)) =
      (\<lambda>p. \<lparr>kmKey = Key (fst p), kmMember = Member (fst p)\<rparr>) ` {p \<in> set ?cn. ?P p}"
    by (simp only: elems_fold_add) simp
  then have e: "elems (snd (unionDifference tss)) = (\<lambda>p. kmOf (fst p)) ` {p \<in> set ?cn. ?P p}"
    by (simp add: kmOf_def)
  have mem: "(t, n) \<in> set ?cn \<longleftrightarrow> t \<in> all_inputs tss \<and> n = int (count_list ?all t)" for t n
  proof -
    have dd: "distinct (map fst ?cn)" using tally_counts[of ?all] by blast
    have mp: "map_of ?cn t =
        (if t \<in> set ?all then Some (int (count_list ?all t)) else None)"
      using tally_counts[of ?all] by blast
    have "(t, n) \<in> set ?cn \<longleftrightarrow> map_of ?cn t = Some n"
      using dd by simp
    also have "\<dots> \<longleftrightarrow> t \<in> set ?all \<and> n = int (count_list ?all t)"
      unfolding mp by auto
    finally show ?thesis unfolding set_all_inputs .
  qed
  have "km \<in> elems (snd (unionDifference tss)) \<longleftrightarrow>
        (\<exists>t n. (t, n) \<in> set ?cn \<and> n < int (length tss) \<and> kmOf t = km)"
    unfolding e by force
  also have "\<dots> \<longleftrightarrow> (\<exists>t \<in> all_inputs tss. kmOf t = km \<and>
                  count_list ?all t < length tss)"
    unfolding mem by auto
  also have "\<dots> \<longleftrightarrow> (\<exists>t \<in> all_inputs tss. kmOf t = km \<and> (\<exists>ts \<in> set tss. t \<notin> elems ts))"
    by (simp add: count_concat_slices filter_short)
  finally show ?thesis .
qed

lemma ksm_eqI: "kmOf t = kmOf t' \<Longrightarrow> Score t = Score t' \<Longrightarrow> t = t'"
  for t t' :: KeyScoreMember
  by (simp add: kmOf_def)

lemma union_elems_max:
  "elems (fst (unionDifference tss)) =
     {t \<in> all_inputs tss. \<forall>t' \<in> all_inputs tss. kmOf t' = kmOf t \<longrightarrow> Score t' \<le> Score t}"
proof -
  have "t \<in> elems (fst (unionDifference tss)) \<longleftrightarrow>
        t \<in> all_inputs tss \<and> (\<forall>t' \<in> all_inputs tss. kmOf t' = kmOf t \<longrightarrow> Score t' \<le> Score t)"
    for t
  proof -
    have "(\<exists>t' \<in> all_inputs tss. kmOf t' = kmOf t \<and> Score t' = Score t) \<longleftrightarrow> t \<in> all_inputs tss"
      using ksm_eqI by blast
    then show ?thesis
      unfolding union_elems best_def set_all_inputs by simp
  qed
  then show ?thesis by blast
qed

lemma ksm_eta: "\<lparr>Key = Key t, Score = Score t, Member = Member t\<rparr> = t"
  by simp

lemma finite_all_inputs: "finite (all_inputs tss)"
  by (simp add: all_inputs_def elems_def)

lemma best_score_is_Max:
  assumes "t \<in> elems (fst (unionDifference tss))"
  shows "Score t = Max {s. \<lparr>Key = Key t, Score = s, Member = Member t\<rparr> \<in> all_inputs tss}"
proof -
  let ?S = "{s. \<lparr>Key = Key t, Score = s, Member = Member t\<rparr> \<in> all_inputs tss}"
  from assms have t: "t \<in> all_inputs tss"
    and top: "\<forall>t' \<in> all_inputs tss. kmOf t' = kmOf t \<longrightarrow> Score t' \<le> Score t"
    unfolding union_elems_max by simp_all
  have "?S \<subseteq> Score ` all_inputs tss" by force
  then have fin: "finite ?S" by (rule finite_subset) (simp add: finite_all_inputs)
  have mem: "Score t \<in> ?S" using t by (simp add: ksm_eta)
  have le: "s \<le> Score t" if "s \<in> ?S" for s
  proof -
    from that have "\<lparr>Key = Key t, Score = s, Member = Member t\<rparr> \<in> all_inputs tss" by simp
    moreover have "kmOf \<lparr>Key = Key t, Score = s, Member = Member t\<rparr> = kmOf t"
      by (simp add: kmOf_def)
    ultimately have "Score \<lparr>Key = Key t, Score = s, Member = Member t\<rparr> \<le> Score t"
      using top by blast
    then show ?thesis by simp
  qed
  have "Max ?S = Score t"
    by (rule Max_eqI) (rule fin, rule le, assumption, rule mem)
  then show ?thesis by (rule sym)
qed

text \<open>
  Claim C2. Every tuple of the union is a tuple of some input, and for every pair
  (key, member) that some input holds the union holds exactly one tuple, whose score is the
  maximum of the scores under which the inputs hold the pair.
\<close>

theorem union_max_score:
  "elems (fst (unionDifference tss)) \<subseteq> all_inputs tss \<and>
   (\<forall>k m. (\<exists>s. \<lparr>Key = k, Score = s, Member = m\<rparr> \<in> all_inputs tss) \<longrightarrow>
      (\<exists>!t. t \<in> elems (fst (unionDifference tss)) \<and> Key t = k \<and> Member t = m) \<and>
      (\<forall>t \<in> elems (fst (unionDifference tss)). Key t = k \<and> Member t = m \<longrightarrow>
         Score t = Max {s. \<lparr>Key = k, Score = s, Member = m\<rparr> \<in> all_inputs tss}))"
proof (intro conjI allI impI)
  show "elems (fst (unionDifference tss)) \<subseteq> all_inputs tss"
    unfolding union_elems_max by blast
next
  fix k m
  assume "\<exists>s. \<lparr>Key = k, Score = s, Member = m\<rparr> \<in> all_inputs tss"
  then obtain s0 where s0: "\<lparr>Key = k, Score = s0, Member = m\<rparr> \<in> all_inputs tss" ..
  let ?all = "concat (map slice tss)"
  let ?km = "\<lparr>kmKey = k, kmMember = m\<rparr>"
  have "\<lparr>Key = k, Score = s0, Member = m\<rparr> \<in> set ?all" using s0 by (simp only: set_all_inputs)
  moreover have "kmOf \<lparr>Key = k, Score = s0, Member = m\<rparr> = ?km" by (simp add: kmOf_def)
  ultimately obtain s where s: "best ?all ?km s" using best_exists by blast
  let ?t = "\<lparr>Key = k, Score = s, Member = m\<rparr>"
  have "best ?all (kmOf ?t) (Score ?t)" using s by (simp add: kmOf_def)
  then have in_u: "?t \<in> elems (fst (unionDifference tss))" by (simp only: union_elems)
  have uniq: "t = ?t" if "t \<in> elems (fst (unionDifference tss))" "Key t = k" "Member t = m" for t
  proof -
    from that(1) have "best ?all (kmOf t) (Score t)" by (simp only: union_elems)
    moreover have "kmOf t = ?km" using that(2,3) by (simp add: kmOf_def)
    ultimately have "Score t = s" using s best_unique by metis
    with that(2,3) show ?thesis by simp
  qed
  show "\<exists>!t. t \<in> elems (fst (unionDifference tss)) \<and> Key t = k \<and> Member t = m"
  proof (rule ex1I[of _ ?t])
    show "?t \<in> elems (fst (unionDifference tss)) \<and> Key ?t = k \<and> Member ?t = m"
      using in_u by simp
  next
    fix t assume "t \<in> elems (fst (unionDifference tss)) \<and> Key t = k \<and> Member t = m"
    then show "t = ?t" using uniq by blast
  qed
next
  fix k m
  assume "\<exists>s. \<lparr>Key = k, Score = s, Member = m\<rparr> \<in> all_inputs tss"
  show "\<forall>t \<in> elems (fst (unionDifference tss)). Key t = k \<and> Member t = m \<longrightarrow>
         Score t = Max {s. \<lparr>Key = k, Score = s, Member = m\<rparr> \<in> all_inputs tss}"
    using best_score_is_Max by blast
qed


lemma scores_in_iff: "s \<in> scores_in ts k m \<longleftrightarrow> \<lparr>Key = k, Score = s, Member = m\<rparr> \<in> elems ts"
proof
  assume "s \<in> scores_in ts k m"
  then obtain t where t: "t \<in> elems ts" "Key t = k" "Member t = m" "Score t = s"
    by (auto simp: scores_in_def)
  then have "t = \<lparr>Key = k, Score = s, Member = m\<rparr>" by simp
  with t(1) show "\<lparr>Key = k, Score = s, Member = m\<rparr> \<in> elems ts" by simp
next
  assume "\<lparr>Key = k, Score = s, Member = m\<rparr> \<in> elems ts"
  then have "Score \<lparr>Key = k, Score = s, Member = m\<rparr> \<in> scores_in ts k m"
    unfolding scores_in_def by (intro imageI) simp
  then show "s \<in> scores_in ts k m" by simp
qed

lemma scores_in_single:
  assumes "single_scored ts" and "s \<in> scores_in ts k m"
  shows "scores_in ts k m = {s}"
proof -
  have "s' = s" if "s' \<in> scores_in ts k m" for s'
  proof -
    from that assms(2) have "\<lparr>Key = k, Score = s', Member = m\<rparr> \<in> elems ts"
      "\<lparr>Key = k, Score = s, Member = m\<rparr> \<in> elems ts"
      by (simp_all add: scores_in_iff)
    with assms(1) have "\<lparr>Key = k, Score = s', Member = m\<rparr> = \<lparr>Key = k, Score = s, Member = m\<rparr>"
      unfolding single_scored_def by fastforce
    then show ?thesis by simp
  qed
  with assms(2) show ?thesis by blast
qed

lemma differ_single_scored:
  assumes "\<forall>ts \<in> set tss. single_scored ts"
  shows "\<not> (\<forall>a \<in> set tss. \<forall>b \<in> set tss. scores_in a k m = scores_in b k m) \<longleftrightarrow>
         (\<exists>ts \<in> set tss. \<exists>s. \<lparr>Key = k, Score = s, Member = m\<rparr> \<in> elems ts) \<and>
         \<not> (\<exists>s. \<forall>ts \<in> set tss. \<lparr>Key = k, Score = s, Member = m\<rparr> \<in> elems ts)"
  (is "?differ \<longleftrightarrow> ?appears \<and> \<not> ?agreed")
proof
  assume ?differ
  then obtain a b where ab: "a \<in> set tss" "b \<in> set tss" "scores_in a k m \<noteq> scores_in b k m"
    by blast
  then have "scores_in a k m \<noteq> {} \<or> scores_in b k m \<noteq> {}" by auto
  with ab(1,2) have ?appears by (auto simp: scores_in_iff)
  moreover have "\<not> ?agreed"
  proof
    assume ?agreed
    then obtain s where s: "\<forall>ts \<in> set tss. s \<in> scores_in ts k m"
      by (auto simp: scores_in_iff)
    with ab(1,2) assms have "scores_in a k m = {s}" "scores_in b k m = {s}"
      by (simp_all add: scores_in_single)
    with ab(3) show False by simp
  qed
  ultimately show "?appears \<and> \<not> ?agreed" ..
next
  assume r: "?appears \<and> \<not> ?agreed"
  then obtain a s where a: "a \<in> set tss" "s \<in> scores_in a k m"
    by (auto simp: scores_in_iff)
  from r obtain b where b: "b \<in> set tss" "s \<notin> scores_in b k m"
    by (auto simp: scores_in_iff)
  with a show ?differ by blast
qed

text \<open>
  Claim C3. The difference holds the pair (key, member) if and only if the inputs do not all
  hold the pair under the identical scores; that is, if and only if some input holds the pair
  and another does not, or two inputs that both hold it hold it under differing scores.
  When every input holds a pair under at most one score (as a replica does), this says: the
  pair occurs in some input, and no score is such that every input holds the pair with it.
\<close>

theorem difference_iff:
  "(\<lparr>kmKey = k, kmMember = m\<rparr> \<in> elems (snd (unionDifference tss)) \<longleftrightarrow>
      \<not> (\<forall>a \<in> set tss. \<forall>b \<in> set tss. scores_in a k m = scores_in b k m)) \<and>
   (\<not> (\<forall>a \<in> set tss. \<forall>b \<in> set tss. scores_in a k m = scores_in b k m) \<longleftrightarrow>
      (\<exists>a \<in> set tss. scores_in a k m \<noteq> {}) \<and> (\<exists>b \<in> set tss. scores_in b k m = {}) \<or>
      (\<exists>a \<in> set tss. \<exists>b \<in> set tss. scores_in a k m \<noteq> {} \<and> scores_in b k m \<noteq> {} \<and>
         scores_in a k m \<noteq> scores_in b k m)) \<and>
   ((\<forall>ts \<in> set tss. single_scored ts) \<longrightarrow>
      (\<lparr>kmKey = k, kmMember = m\<rparr> \<in> elems (snd (unionDifference tss)) \<longleftrightarrow>
         (\<exists>ts \<in> set tss. \<exists>s. \<lparr>Key = k, Score = s, Member = m\<rparr> \<in> elems ts) \<and>
         \<not> (\<exists>s. \<forall>ts \<in> set tss. \<lparr>Key = k, Score = s, Member = m\<rparr> \<in> elems ts)))"
proof (intro conjI impI)
  let ?km = "\<lparr>kmKey = k, kmMember = m\<rparr>"
  have "?km \<in> elems (snd (unionDifference tss)) \<longleftrightarrow>
        (\<exists>t \<in> all_inputs tss. kmOf t = ?km \<and> (\<exists>b \<in> set tss. t \<notin> elems b))"
    by (rule difference_elems)
  also have "\<dots> \<longleftrightarrow> (\<exists>a \<in> set tss. \<exists>b \<in> set tss. \<exists>s. s \<in> scores_in a k m \<and> s \<notin> scores_in b k m)"
  proof
    assume "\<exists>t \<in> all_inputs tss. kmOf t = ?km \<and> (\<exists>b \<in> set tss. t \<notin> elems b)"
    then obtain t a b where t: "a \<in> set tss" "t \<in> elems a" "kmOf t = ?km" "b \<in> set tss" "t \<notin> elems b"
      by (auto simp: all_inputs_def)
    from t(3) have "t = \<lparr>Key = k, Score = Score t, Member = m\<rparr>" by (simp add: kmOf_def)
    with t(2,5) have "Score t \<in> scores_in a k m" "Score t \<notin> scores_in b k m"
      by (simp_all add: scores_in_iff)
    with t(1,4) show "\<exists>a \<in> set tss. \<exists>b \<in> set tss. \<exists>s. s \<in> scores_in a k m \<and> s \<notin> scores_in b k m"
      by blast
  next
    assume "\<exists>a \<in> set tss. \<exists>b \<in> set tss. \<exists>s. s \<in> scores_in a k m \<and> s \<notin> scores_in b k m"
    then obtain a b s where ab: "a \<in> set tss" "b \<in> set tss"
      "\<lparr>Key = k, Score = s, Member = m\<rparr> \<in> elems a" "\<lparr>Key = k, Score = s, Member = m\<rparr> \<notin> elems b"
      by (auto simp: scores_in_iff)
    have "kmOf \<lparr>Key = k, Score = s, Member = m\<rparr> = ?km" by (simp add: kmOf_def)
    moreover have "\<lparr>Key = k, Score = s, Member = m\<rparr> \<in> all_inputs tss"
      using ab(1,3) by (auto simp: all_inputs_def)
    ultimately show "\<exists>t \<in> all_inputs tss. kmOf t = ?km \<and> (\<exists>b \<in> set tss. t \<notin> elems b)"
      using ab(2,4) by blast
  qed
  also have "\<dots> \<longleftrightarrow> \<not> (\<forall>a \<in> set tss. \<forall>b \<in> set tss. scores_in a k m = scores_in b k m)"
    by blast
  finally show main: "?km \<in> elems (snd (unionDifference tss)) \<longleftrightarrow>
      \<not> (\<forall>a \<in> set tss. \<forall>b \<in> set tss. scores_in a k m = scores_in b k m)" .
  assume "\<forall>ts \<in> set tss. single_scored ts"
  then show "?km \<in> elems (snd (unionDifference tss)) \<longleftrightarrow>
         (\<exists>ts \<in> set tss. \<exists>s. \<lparr>Key = k, Score = s, Member = m\<rparr> \<in> elems ts) \<and>
         \<not> (\<exists>s. \<forall>ts \<in> set tss. \<lparr>Key = k, Score = s, Member = m\<rparr> \<in> elems ts)"
    unfolding main by (rule differ_single_scored)
next
  show "\<not> (\<forall>a \<in> set tss. \<forall>b \<in> set tss. scores_in a k m = scores_in b k m) \<longleftrightarrow>
      (\<exists>a \<in> set tss. scores_in a k m \<noteq> {}) \<and> (\<exists>b \<in> set tss. scores_in b k m = {}) \<or>
      (\<exists>a \<in> set tss. \<exists>b \<in> set tss. scores_in a k m \<noteq> {} \<and> scores_in b k m \<noteq> {} \<and>
         scores_in a k m \<noteq> scores_in b k m)"
    (is "?differ \<longleftrightarrow> ?missing \<or> ?two")
  proof
    assume ?differ
    then obtain a b where ab: "a \<in> set tss" "b \<in> set tss" "scores_in a k m \<noteq> scores_in b k m"
      by blast
    show "?missing \<or> ?two"
    proof (cases "scores_in a k m = {} \<or> scores_in b k m = {}")
      case True
      with ab have ?missing by metis
      then show ?thesis ..
    next
      case False
      with ab have ?two by blast
      then show ?thesis ..
    qed
  next
    assume "?missing \<or> ?two"
    then show ?differ by metis
  qed
qed

lemma all_inputs_perm: "mset tss' = mset tss \<Longrightarrow> all_inputs tss' = all_inputs tss"
  unfolding all_inputs_def by (metis set_mset_mset)

text \<open>
  Claim C6, amended. A permutation of the list of inputs leaves the union unchanged, and
  the union of a tuple set with itself is that tuple set exactly when the set holds every
  pair under at most one score.
\<close>

theorem union_commutative_idempotent:
  "(mset tss' = mset tss \<longrightarrow>
      elems (fst (unionDifference tss')) = elems (fst (unionDifference tss))) \<and>
   (elems (fst (unionDifference [S, S])) = elems S \<longleftrightarrow> single_scored S)"
proof
  show "mset tss' = mset tss \<longrightarrow>
      elems (fst (unionDifference tss')) = elems (fst (unionDifference tss))"
  proof
    assume "mset tss' = mset tss"
    then have "all_inputs tss' = all_inputs tss" by (rule all_inputs_perm)
    then show "elems (fst (unionDifference tss')) = elems (fst (unionDifference tss))"
      by (simp only: union_elems_max)
  qed
next
  have in2: "all_inputs [S, S] = elems S" by (simp add: all_inputs_def)
  have u: "elems (fst (unionDifference [S, S])) =
     {t \<in> elems S. \<forall>t' \<in> elems S. kmOf t' = kmOf t \<longrightarrow> Score t' \<le> Score t}"
    by (simp only: union_elems_max in2)
  show "elems (fst (unionDifference [S, S])) = elems S \<longleftrightarrow> single_scored S"
  proof
    assume eq: "elems (fst (unionDifference [S, S])) = elems S"
    have "t = t'" if "t \<in> elems S" "t' \<in> elems S" "Key t = Key t'" "Member t = Member t'" for t t'
    proof -
      have k: "kmOf t = kmOf t'" using that(3,4) by (simp add: kmOf_def)
      from eq u have mx: "elems S =
          {t \<in> elems S. \<forall>t' \<in> elems S. kmOf t' = kmOf t \<longrightarrow> Score t' \<le> Score t}"
        by simp
      have "t \<in> {t \<in> elems S. \<forall>t' \<in> elems S. kmOf t' = kmOf t \<longrightarrow> Score t' \<le> Score t}"
        using that(1) mx by blast
      then have a: "Score t' \<le> Score t" using that(2) k by simp
      have "t' \<in> {t \<in> elems S. \<forall>t' \<in> elems S. kmOf t' = kmOf t \<longrightarrow> Score t' \<le> Score t}"
        using that(2) mx by blast
      then have b: "Score t \<le> Score t'" using that(1) k by simp
      from a b show ?thesis using that(3,4) by simp
    qed
    then show "single_scored S" unfolding single_scored_def by blast
  next
    assume ss: "single_scored S"
    have "\<forall>t' \<in> elems S. kmOf t' = kmOf t \<longrightarrow> Score t' \<le> Score t" if "t \<in> elems S" for t
    proof (intro ballI impI)
      fix t' assume "t' \<in> elems S" "kmOf t' = kmOf t"
      then have "t' = t" using ss that unfolding single_scored_def by (simp add: kmOf_def)
      then show "Score t' \<le> Score t" by simp
    qed
    then show "elems (fst (unionDifference [S, S])) = elems S" unfolding u by blast
  qed
qed




lemmas union_eval =
  unionDifference_def makeSet_def add_def slice_def tallyTuple_def elems_def tuple_def Let_def

text \<open>
  Against claim C6 as stated. A tuple set that holds the pair (k, m) under the scores 1 and
  2 is not the union of itself with itself: the union keeps the tuple with score 2 only.
\<close>

theorem union_idempotent_counterexample:
  "elems twice_scored = {tuple ''k'' 1 ''m'', tuple ''k'' 2 ''m''} \<and>
   elems (fst (unionDifference [twice_scored, twice_scored])) = {tuple ''k'' 2 ''m''} \<and>
   elems (fst (unionDifference [twice_scored, twice_scored])) \<noteq> elems twice_scored"
  by (auto simp: twice_scored_def union_eval)

lemma replicas_eval:
  "elems replica0 = {tuple ''k'' 1 ''m1''}"
  "elems replica1 = {tuple ''k'' 2 ''m1'', tuple ''k'' 1 ''m2''}"
  "elems replica2 = {tuple ''k'' 1 ''m2''}"
  by (auto simp: replica0_def replica1_def replica2_def union_eval)

lemma union_replicas:
  "elems (fst (unionDifference [replica0, replica1, replica2])) =
     {tuple ''k'' 2 ''m1'', tuple ''k'' 1 ''m2''}"
  by (auto simp: replica0_def replica1_def replica2_def union_eval)

theorem union_max_score_witness:
  "tuple ''k'' 1 ''m1'' \<in> all_inputs [replica0, replica1, replica2] \<and>
   (\<exists>!t. t \<in> elems (fst (unionDifference [replica0, replica1, replica2])) \<and>
          Key t = ''k'' \<and> Member t = ''m1'') \<and>
   elems (fst (unionDifference [replica0, replica1, replica2])) =
     {tuple ''k'' 2 ''m1'', tuple ''k'' 1 ''m2''} \<and>
   Max {s. \<lparr>Key = ''k'', Score = s, Member = ''m1''\<rparr> \<in> all_inputs [replica0, replica1, replica2]}
     = 2"
proof -
  let ?R = "[replica0, replica1, replica2]"
  have a: "tuple ''k'' 1 ''m1'' \<in> all_inputs ?R"
    by (simp add: all_inputs_def replicas_eval)
  then have h: "\<exists>s. \<lparr>Key = ''k'', Score = s, Member = ''m1''\<rparr> \<in> all_inputs ?R"
    unfolding tuple_def by blast
  from union_max_score[of ?R] h
  have one: "\<exists>!t. t \<in> elems (fst (unionDifference ?R)) \<and> Key t = ''k'' \<and> Member t = ''m1''"
    and top: "\<forall>t \<in> elems (fst (unionDifference ?R)). Key t = ''k'' \<and> Member t = ''m1'' \<longrightarrow>
         Score t = Max {s. \<lparr>Key = ''k'', Score = s, Member = ''m1''\<rparr> \<in> all_inputs ?R}"
    by blast+
  have "tuple ''k'' 2 ''m1'' \<in> elems (fst (unionDifference ?R))"
    by (simp add: union_replicas)
  moreover have "Key (tuple ''k'' 2 ''m1'') = ''k'' \<and> Member (tuple ''k'' 2 ''m1'') = ''m1''"
    by (simp add: tuple_def)
  ultimately have "Score (tuple ''k'' 2 ''m1'') =
      Max {s. \<lparr>Key = ''k'', Score = s, Member = ''m1''\<rparr> \<in> all_inputs ?R}"
    using top by blast
  then have mx: "Max {s. \<lparr>Key = ''k'', Score = s, Member = ''m1''\<rparr> \<in> all_inputs ?R} = 2"
    by (simp add: tuple_def)
  show ?thesis by (intro conjI a one union_replicas mx)
qed

theorem difference_iff_witness:
  "scores_in replica0 ''k'' ''m1'' = {1} \<and> scores_in replica1 ''k'' ''m1'' = {2} \<and>
   scores_in replica2 ''k'' ''m1'' = {} \<and>
   single_scored replica0 \<and> single_scored replica1 \<and> single_scored replica2 \<and>
   \<lparr>kmKey = ''k'', kmMember = ''m1''\<rparr> \<in>
     elems (snd (unionDifference [replica0, replica1, replica2])) \<and>
   \<not> (\<exists>s. \<lparr>Key = ''k'', Score = s, Member = ''m1''\<rparr> \<in> elems replica0 \<and>
          \<lparr>Key = ''k'', Score = s, Member = ''m1''\<rparr> \<in> elems replica1 \<and>
          \<lparr>Key = ''k'', Score = s, Member = ''m1''\<rparr> \<in> elems replica2)"
proof -
  let ?R = "[replica0, replica1, replica2]"
  have a: "scores_in replica0 ''k'' ''m1'' = {1}"
    and b: "scores_in replica1 ''k'' ''m1'' = {2}"
    and c: "scores_in replica2 ''k'' ''m1'' = {}"
    by (auto simp: scores_in_iff replicas_eval tuple_def)
  have s0: "single_scored replica0" and s1: "single_scored replica1"
    and s2: "single_scored replica2"
    by (auto simp: single_scored_def replicas_eval tuple_def)
  then have ss: "\<forall>ts \<in> set ?R. single_scored ts" by simp
  have "scores_in replica0 ''k'' ''m1'' \<noteq> scores_in replica1 ''k'' ''m1''"
    unfolding a b by simp
  then have "\<not> (\<forall>a \<in> set ?R. \<forall>b \<in> set ?R. scores_in a ''k'' ''m1'' = scores_in b ''k'' ''m1'')"
    by simp
  with difference_iff[of "''k''" "''m1''" ?R]
  have d: "\<lparr>kmKey = ''k'', kmMember = ''m1''\<rparr> \<in> elems (snd (unionDifference ?R))"
    by blast
  with difference_iff[of "''k''" "''m1''" ?R] ss
  have "\<not> (\<exists>s. \<forall>ts \<in> set ?R. \<lparr>Key = ''k'', Score = s, Member = ''m1''\<rparr> \<in> elems ts)"
    by blast
  then have e: "\<not> (\<exists>s. \<lparr>Key = ''k'', Score = s, Member = ''m1''\<rparr> \<in> elems replica0 \<and>
          \<lparr>Key = ''k'', Score = s, Member = ''m1''\<rparr> \<in> elems replica1 \<and>
          \<lparr>Key = ''k'', Score = s, Member = ''m1''\<rparr> \<in> elems replica2)"
    by simp
  show ?thesis by (intro conjI a b c s0 s1 s2 d e)
qed

theorem union_commutative_idempotent_witness:
  "mset [replica1, replica0] = mset [replica0, replica1] \<and>
   elems (fst (unionDifference [replica1, replica0])) =
     elems (fst (unionDifference [replica0, replica1])) \<and>
   single_scored replica1 \<and>
   elems (fst (unionDifference [replica1, replica1])) = elems replica1"
proof -
  have a: "mset [replica1, replica0] = mset [replica0, replica1]" by simp
  have s: "single_scored replica1"
    by (auto simp: single_scored_def replicas_eval tuple_def)
  from union_commutative_idempotent[of "[replica1, replica0]" "[replica0, replica1]" replica1] a s
  have b: "elems (fst (unionDifference [replica1, replica0])) =
     elems (fst (unionDifference [replica0, replica1]))"
    and c: "elems (fst (unionDifference [replica1, replica1])) = elems replica1"
    by blast+
  show ?thesis by (intro conjI a b s c)
qed


section \<open>Properties of ordered, limited slices\<close>

lemma Less_irrefl [simp]: "\<not> Less a a"
  by (simp add: Less_def)

lemma Less_trans: "Less a b \<Longrightarrow> Less b c \<Longrightarrow> Less a c"
  by (auto simp: Less_def split: if_splits)

lemma Less_asym: "Less a b \<Longrightarrow> \<not> Less b a"
  by (auto simp: Less_def split: if_splits)

lemma Less_total: "a \<noteq> b \<Longrightarrow> Less a b \<or> Less b a"
  for a b :: KeyScoreMember
proof (rule ccontr)
  assume ne: "a \<noteq> b" and "\<not> (Less a b \<or> Less b a)"
  then have "Key a = Key b" "Score a = Score b" "Member a = Member b"
    by (auto simp: Less_def split: if_splits)
  then have "a = b" by simp
  with ne show False by simp
qed

lemma Less_between: "Less c a \<Longrightarrow> Less c b \<or> Less b a"
  using Less_total[of b c] Less_trans by blast

lemma mset_insertLess: "mset (insertLess x xs) = add_mset x (mset xs)"
  by (induction xs) simp_all

lemma set_insertLess: "set (insertLess x xs) = insert x (set xs)"
  by (induction xs) auto

lemma sorted_insertLess:
  "sorted_wrt (\<lambda>a b. \<not> Less b a) xs \<Longrightarrow> sorted_wrt (\<lambda>a b. \<not> Less b a) (insertLess x xs)"
proof (induction xs)
  case Nil
  show ?case by simp
next
  case (Cons y ys)
  show ?case
  proof (cases "Less y x")
    case True
    then have "\<not> Less x y" by (rule Less_asym)
    with True Cons show ?thesis by (auto simp: set_insertLess)
  next
    case False
    have "\<not> Less z x" if "z \<in> set ys" for z
    proof
      assume "Less z x"
      then have "Less z y \<or> Less y x" by (rule Less_between)
      with False that Cons.prems show False by auto
    qed
    with False Cons.prems show ?thesis by auto
  qed
qed

lemma mset_sort_Sort: "mset (sort_Sort a) = mset a"
  by (induction a) (simp_all add: sort_Sort_def mset_insertLess)

lemma sorted_sort_Sort: "sorted_wrt (\<lambda>a b. \<not> Less b a) (sort_Sort a)"
  by (induction a) (simp_all add: sort_Sort_def sorted_insertLess)

lemma strictly_sorted:
  "sorted_wrt (\<lambda>a b. \<not> Less b a) xs \<Longrightarrow> distinct xs \<Longrightarrow> sorted_wrt Less xs"
proof (induction xs)
  case Nil
  show ?case by simp
next
  case (Cons x xs)
  have "Less x y" if "y \<in> set xs" for y
  proof -
    from that Cons.prems have "x \<noteq> y" "\<not> Less y x" by auto
    then show ?thesis using Less_total by blast
  qed
  with Cons show ?case by simp
qed

lemma sorted_Less_unique:
  "sorted_wrt Less xs \<Longrightarrow> sorted_wrt Less ys \<Longrightarrow> set xs = set ys \<Longrightarrow> xs = ys"
proof (induction xs arbitrary: ys)
  case Nil
  then show ?case by simp
next
  case (Cons x xs)
  then obtain y ys' where ys: "ys = y # ys'" by (cases ys) auto
  have xy: "x = y"
  proof (rule ccontr)
    assume ne: "x \<noteq> y"
    have "x \<in> set (y # ys')" using Cons.prems(3) ys by auto
    with ne have "x \<in> set ys'" by simp
    then have 1: "Less y x" using Cons.prems(2) ys by simp
    have "y \<in> set (x # xs)" using Cons.prems(3) ys by auto
    with ne have "y \<in> set xs" by simp
    then have "Less x y" using Cons.prems(1) by simp
    with 1 show False using Less_asym by blast
  qed
  have nx: "x \<notin> set xs" using Cons.prems(1) by auto
  have ny: "y \<notin> set ys'" using Cons.prems(2) ys by auto
  have "set xs = set ys'" using Cons.prems(3) ys xy nx ny by auto
  moreover have "sorted_wrt Less xs" "sorted_wrt Less ys'" using Cons.prems(1,2) ys by simp_all
  ultimately have "xs = ys'" using Cons.IH by blast
  with xy ys show ?case by simp
qed

lemma orderedLimitedSlice_negative:
  "limit < 0 \<Longrightarrow> orderedLimitedSlice s limit = Inl SliceBoundsOutOfRange"
  by (simp add: orderedLimitedSlice_def Let_def)

text \<open>
  Claim C9. For a limit that is not negative, \<^verbatim>\<open>orderedLimitedSlice\<close> returns a slice (it does
  not panic) of at most \<open>limit\<close> elements, strictly ascending in the canonical order \<open>Less\<close>,
  and equal to the first \<open>limit\<close> elements of every arrangement of the tuples of \<open>s\<close> in
  which no element is \<open>Less\<close> than an earlier one, whichever way \<^verbatim>\<open>sort.Sort\<close> reaches it.
\<close>

theorem orderedLimitedSlice_prefix:
  assumes "0 \<le> limit"
  shows "\<exists>a. orderedLimitedSlice s limit = Inr a \<and>
           length a \<le> nat limit \<and> sorted_wrt Less a \<and>
           (\<forall>srt. mset srt = mset (slice s) \<and> sorted_wrt (\<lambda>x y. \<not> Less y x) srt \<longrightarrow>
                  a = take (nat limit) srt)"
proof -
  let ?sorted = "sort_Sort (slice s)"
  let ?a = "take (nat limit) ?sorted"
  have res: "orderedLimitedSlice s limit = Inr ?a"
    using assms by (auto simp: orderedLimitedSlice_def Let_def)
  have d: "distinct (slice s)" by (simp add: slice_def)
  have ds: "distinct ?sorted"
    using d mset_sort_Sort[of "slice s"] by (metis mset_eq_imp_distinct_iff)
  have st: "sorted_wrt Less ?sorted"
    using sorted_sort_Sort ds by (rule strictly_sorted)
  have "sorted_wrt Less ?a"
    using st by (metis sorted_wrt_take)
  moreover have "length ?a \<le> nat limit" by simp
  moreover have "?a = take (nat limit) srt"
    if "mset srt = mset (slice s)" "sorted_wrt (\<lambda>x y. \<not> Less y x) srt" for srt
  proof -
    have "distinct srt" using d that(1) by (metis mset_eq_imp_distinct_iff)
    with that(2) have "sorted_wrt Less srt" by (rule strictly_sorted)
    moreover have "set ?sorted = set srt"
      using that(1) mset_sort_Sort[of "slice s"] by (metis set_mset_mset)
    ultimately have "?sorted = srt" using st sorted_Less_unique by blast
    then show ?thesis by simp
  qed
  ultimately show ?thesis using res by blast
qed

theorem orderedLimitedSlice_prefix_witness:
  "(0::int) \<le> 3 \<and>
   orderedLimitedSlice unordered 3 =
     Inr [tuple ''a'' 1 ''m2'', tuple ''k'' 2 ''m1'', tuple ''k'' 1 ''m0''] \<and>
   sort_Sort (slice unordered) =
     [tuple ''a'' 1 ''m2'', tuple ''k'' 2 ''m1'', tuple ''k'' 1 ''m0'', tuple ''k'' 1 ''m1''] \<and>
   (\<exists>a. orderedLimitedSlice unordered 3 = Inr a \<and> length a \<le> nat 3 \<and> sorted_wrt Less a \<and>
      (\<forall>srt. mset srt = mset (slice unordered) \<and> sorted_wrt (\<lambda>x y. \<not> Less y x) srt \<longrightarrow>
             a = take (nat 3) srt))"
proof -
  have h: "(0::int) \<le> 3" by simp
  have srt: "sort_Sort (slice unordered) =
     [tuple ''a'' 1 ''m2'', tuple ''k'' 2 ''m1'', tuple ''k'' 1 ''m0'', tuple ''k'' 1 ''m1'']"
    by (simp add: unordered_def makeSet_def add_def slice_def sort_Sort_def Less_def tuple_def)
  have c: "orderedLimitedSlice unordered 3 =
     Inr [tuple ''a'' 1 ''m2'', tuple ''k'' 2 ''m1'', tuple ''k'' 1 ''m0'']"
    by (simp add: orderedLimitedSlice_def srt)
  show ?thesis by (intro conjI h c srt orderedLimitedSlice_prefix[OF h])
qed


end
